theory Spec2Isabelle
  imports Complex_Main "HOL-Library.Word"
begin

unbundle bit_operations_syntax

section \<open>Data model\<close>

type_synonym u8 = "8 word"
type_synonym u16 = "16 word"
type_synonym u32 = "32 word"
type_synonym u64 = "64 word"

text \<open>
  Major types, the \<^verbatim>\<open>constexpr int\<close> constants at the head of \<^verbatim>\<open>CBOR.cpp\<close>.
  They are only ever compared with, or shifted into, a byte.
\<close>

definition kUnsignedInt :: u8 where "kUnsignedInt = 0"
definition kNegativeInt :: u8 where "kNegativeInt = 1"
definition kBytes :: u8 where "kBytes = 2"
definition kText :: u8 where "kText = 3"
definition kArray :: u8 where "kArray = 4"
definition kMap :: u8 where "kMap = 5"
definition kTag :: u8 where "kTag = 6"
definition kSimpleOrFloat :: u8 where "kSimpleOrFloat = 7"

lemmas majorType_defs =
  kUnsignedInt_def kNegativeInt_def kBytes_def kText_def kArray_def kMap_def kTag_def
  kSimpleOrFloat_def

text \<open>
  The scoped enumerations \<^verbatim>\<open>DataType\<close>, \<^verbatim>\<open>State\<close> and \<^verbatim>\<open>SyntaxError\<close>. The enumerators
  of \<^verbatim>\<open>DataType\<close> carry the scope in their name, since \<^verbatim>\<open>DataType::kUnsignedInt\<close> and the
  major type \<^verbatim>\<open>kUnsignedInt\<close> are different things.
\<close>

datatype DataType =
    DataType_kUnsignedInt | DataType_kNegativeInt | DataType_kBytes | DataType_kText
  | DataType_kArray | DataType_kMap | DataType_kTag | DataType_kFloat | DataType_kDouble
  | DataType_kBoolean | DataType_kNull | DataType_kUndefined | DataType_kBreak
  | DataType_kSimpleValue | DataType_kEOS | DataType_kSyntaxError

datatype State = kStart | kAdditionalInfo | kWaitAvailable | kReadValue | kDetermineType

datatype SyntaxError =
  kNoError | kUnknownAdditionalInfo | kNotAnIndefiniteType | kBadSimpleValue

subsection \<open>The byte streams\<close>

text \<open>
  The input \<^verbatim>\<open>Stream\<close> is the list of the bytes that are readable now. \<^verbatim>\<open>read()\<close> takes
  the first one, or returns \<open>-1\<close> and leaves the stream as it is when there is none;
  \<^verbatim>\<open>available()\<close> counts them. Bytes that arrive later are appended to the list.
\<close>

definition in_read :: "u8 list \<Rightarrow> int \<times> u8 list" where
  "in_read s = (case s of [] \<Rightarrow> (-1, []) | b # bs \<Rightarrow> (uint b, bs))"

definition in_available :: "u8 list \<Rightarrow> int" where
  "in_available s = int (length s)"

text \<open>
  The output \<^verbatim>\<open>Print\<close> is the list of the bytes written so far. \<^verbatim>\<open>write\<close> takes one
  byte: its argument, whatever integer type the expression has, is converted to
  \<^verbatim>\<open>uint8_t\<close>, that is cut to its low eight bits.
\<close>

definition out_write :: "'a::len word \<Rightarrow> u8 list \<Rightarrow> u8 list" where
  "out_write x out = out @ [ucast x]"

section \<open>Writer\<close>

definition writeTypedInt :: "u8 \<Rightarrow> u64 \<Rightarrow> u8 list \<Rightarrow> u8 list" where
  "writeTypedInt mt u out =
    (if u < 24 then
       out_write (ucast mt + u) out
     else if u < push_bit 8 1 then
       out_write u (out_write (mt + 24) out)
     else if u < push_bit 16 1 then
       out_write u (out_write (drop_bit 8 u) (out_write (mt + 25) out))
     else if u < push_bit 32 1 then
       out_write u (out_write (drop_bit 8 u) (out_write (drop_bit 16 u)
         (out_write (drop_bit 24 u) (out_write (mt + 26) out))))
     else
       out_write u (out_write (drop_bit 8 u) (out_write (drop_bit 16 u)
         (out_write (drop_bit 24 u) (out_write (drop_bit 32 u) (out_write (drop_bit 40 u)
         (out_write (drop_bit 48 u) (out_write (drop_bit 56 u)
         (out_write (mt + 27) out)))))))))"

definition writeUnsignedInt :: "u64 \<Rightarrow> u8 list \<Rightarrow> u8 list" where
  "writeUnsignedInt u out = writeTypedInt (push_bit 5 kUnsignedInt) u out"

text \<open>
  \<^verbatim>\<open>writeInt\<close> takes an \<^verbatim>\<open>int64_t\<close>: a 64-bit word read in two's complement (\<open>sint\<close>).
  \<^verbatim>\<open>i >> 63\<close> on it is the arithmetic shift.
\<close>

definition writeInt :: "u64 \<Rightarrow> u8 list \<Rightarrow> u8 list" where
  "writeInt i out =
    (let u = signed_drop_bit 63 i;
         mt = (ucast (u AND ucast (push_bit 5 kNegativeInt)) :: u8);
         u = u XOR i
     in writeTypedInt mt u out)"

definition writeTag :: "u64 \<Rightarrow> u8 list \<Rightarrow> u8 list" where
  "writeTag v out = writeTypedInt (push_bit 5 kTag) v out"

definition writeSimpleValue :: "u8 \<Rightarrow> u8 list \<Rightarrow> u8 list" where
  "writeSimpleValue v out =
    (if v < 24 then out_write (push_bit 5 kSimpleOrFloat + v) out
     else out_write v (out_write (push_bit 5 kSimpleOrFloat + 24) out))"

definition writeBoolean :: "bool \<Rightarrow> u8 list \<Rightarrow> u8 list" where
  "writeBoolean b out = out_write (push_bit 5 kSimpleOrFloat + (if b then 21 else 20)) out"

text \<open>The lengths are \<^verbatim>\<open>unsigned int\<close>, 32 bits wide, converted to \<^verbatim>\<open>uint64_t\<close>.\<close>

definition beginBytes :: "u32 \<Rightarrow> u8 list \<Rightarrow> u8 list" where
  "beginBytes len out = writeTypedInt (push_bit 5 kBytes) (ucast len) out"

definition beginText :: "u32 \<Rightarrow> u8 list \<Rightarrow> u8 list" where
  "beginText len out = writeTypedInt (push_bit 5 kText) (ucast len) out"

definition beginArray :: "u32 \<Rightarrow> u8 list \<Rightarrow> u8 list" where
  "beginArray len out = writeTypedInt (push_bit 5 kArray) (ucast len) out"

definition beginMap :: "u32 \<Rightarrow> u8 list \<Rightarrow> u8 list" where
  "beginMap len out = writeTypedInt (push_bit 5 kMap) (ucast len) out"

section \<open>Reader\<close>

text \<open>
  The members of \<^verbatim>\<open>Reader\<close>, with the input stream among them. A name cannot end in an
  underscore here, so the member \<^verbatim>\<open>state_\<close> is the field \<open>state_m\<close>, and so on.
  \<^verbatim>\<open>initialByte_\<close> and \<^verbatim>\<open>waitAvailable_\<close> hold what \<^verbatim>\<open>read()\<close> and \<^verbatim>\<open>available()\<close> are
  compared with, an \<^verbatim>\<open>int\<close>; \<^verbatim>\<open>value_\<close> is the \<^verbatim>\<open>uint64_t\<close> that \<^verbatim>\<open>getRawValue\<close> returns.
\<close>

record Reader =
  in_m :: "u8 list"
  state_m :: State
  initialByte_m :: int
  majorType_m :: u8
  addlInfo_m :: u8
  waitAvailable_m :: int
  value_m :: u64
  syntaxError_m :: SyntaxError

text \<open>
  \<^verbatim>\<open>readDataType\<close> is a sequence of \<^verbatim>\<open>if (state_ == ...)\<close> blocks. Each block is a
  function from the reader to the reader, with \<open>Some t\<close> beside it when the block
  returns \<open>t\<close> and \<open>None\<close> when control falls through to the next block.
\<close>

definition rdStart :: "Reader \<Rightarrow> DataType option \<times> Reader" where
  "rdStart r =
    (if state_m r = kStart then
       (let (b, s) = in_read (in_m r);
            r = r\<lparr>in_m := s, initialByte_m := b, value_m := 0, syntaxError_m := kNoError\<rparr>
        in if b < 0 then
             (Some DataType_kEOS, r\<lparr>majorType_m := 0, addlInfo_m := 0, waitAvailable_m := 0\<rparr>)
           else
             (None, r\<lparr>majorType_m := drop_bit 5 (word_of_int b :: u8),
                       addlInfo_m := word_of_int (b AND 0x1f),
                       state_m := kAdditionalInfo\<rparr>))
     else (None, r))"

definition rdAdditionalInfo :: "Reader \<Rightarrow> DataType option \<times> Reader" where
  "rdAdditionalInfo r =
    (if state_m r = kAdditionalInfo then
       (let r = r\<lparr>waitAvailable_m := 0\<rparr>; a = addlInfo_m r in
        if a = 24 then (None, r\<lparr>waitAvailable_m := 1, state_m := kWaitAvailable\<rparr>)
        else if a = 25 then (None, r\<lparr>waitAvailable_m := 2, state_m := kWaitAvailable\<rparr>)
        else if a = 26 then (None, r\<lparr>waitAvailable_m := 4, state_m := kWaitAvailable\<rparr>)
        else if a = 27 then (None, r\<lparr>waitAvailable_m := 8, state_m := kWaitAvailable\<rparr>)
        else if a = 28 \<or> a = 29 \<or> a = 30 then
          (Some DataType_kSyntaxError, r\<lparr>syntaxError_m := kUnknownAdditionalInfo\<rparr>)
        else if a = 31 then
          (if majorType_m r = kUnsignedInt \<or> majorType_m r = kNegativeInt \<or> majorType_m r = kTag
           then (Some DataType_kSyntaxError, r\<lparr>syntaxError_m := kNotAnIndefiniteType\<rparr>)
           else (None, r\<lparr>state_m := kReadValue\<rparr>))
        else (None, r\<lparr>state_m := kReadValue\<rparr>))
     else (None, r))"

definition rdWaitAvailable :: "Reader \<Rightarrow> DataType option \<times> Reader" where
  "rdWaitAvailable r =
    (if state_m r = kWaitAvailable then
       (if in_available (in_m r) < waitAvailable_m r then (Some DataType_kEOS, r)
        else (None, r\<lparr>state_m := kReadValue\<rparr>))
     else (None, r))"

text \<open>
  The argument bytes. Each \<^verbatim>\<open>in_.read()\<close> is an \<^verbatim>\<open>int\<close>, converted by the
  \<^verbatim>\<open>static_cast\<close> to the unsigned type named there; the reads of one expression are
  taken from left to right, the order in which they are written. The two \<^verbatim>\<open>uint16_t\<close>
  operands of case 25 are promoted before the shift, here to 32 bits; the result is below
  \<open>2^24\<close>, so its conversion to \<^verbatim>\<open>uint64_t\<close> adds zeros.
\<close>

definition read_as :: "u8 list \<Rightarrow> 'a::len word \<times> u8 list" where
  "read_as s = (let (b, s') = in_read s in (word_of_int b, s'))"

definition rdReadValue :: "Reader \<Rightarrow> DataType option \<times> Reader" where
  "rdReadValue r =
    (if state_m r = kReadValue then
       (let a = addlInfo_m r; s = in_m r;
            r =
              (if a = 24 then
                 (let (b0 :: u64, s) = read_as s in r\<lparr>in_m := s, value_m := b0\<rparr>)
               else if a = 25 then
                 (let (b1 :: u16, s) = read_as s; (b0 :: u16, s) = read_as s
                  in r\<lparr>in_m := s, value_m := ucast (push_bit 8 (ucast b1 :: u32) OR ucast b0)\<rparr>)
               else if a = 26 then
                 (let (b3 :: u32, s) = read_as s; (b2 :: u32, s) = read_as s;
                      (b1 :: u32, s) = read_as s; (b0 :: u32, s) = read_as s
                  in r\<lparr>in_m := s,
                       value_m := ucast (push_bit 24 b3 OR push_bit 16 b2 OR push_bit 8 b1 OR b0)\<rparr>)
               else if a = 27 then
                 (let (b7 :: u64, s) = read_as s; (b6 :: u64, s) = read_as s;
                      (b5 :: u64, s) = read_as s; (b4 :: u64, s) = read_as s;
                      (b3 :: u64, s) = read_as s; (b2 :: u64, s) = read_as s;
                      (b1 :: u64, s) = read_as s; (b0 :: u64, s) = read_as s
                  in r\<lparr>in_m := s,
                       value_m := push_bit 56 b7 OR push_bit 48 b6 OR push_bit 40 b5 OR
                         push_bit 32 b4 OR push_bit 24 b3 OR push_bit 16 b2 OR
                         push_bit 8 b1 OR b0\<rparr>)
               else if a = 28 \<or> a = 29 \<or> a = 30 then r\<lparr>value_m := ucast a\<rparr>
               else if a = 31 then r\<lparr>value_m := 0\<rparr>
               else r\<lparr>value_m := ucast a\<rparr>)
        in (None, r\<lparr>state_m := kDetermineType\<rparr>))
     else (None, r))"

definition rdDetermineType :: "Reader \<Rightarrow> DataType option \<times> Reader" where
  "rdDetermineType r =
    (if state_m r = kDetermineType then
       (let r = r\<lparr>state_m := kStart\<rparr>; m = majorType_m r; a = addlInfo_m r in
        if m = kUnsignedInt then (Some DataType_kUnsignedInt, r)
        else if m = kNegativeInt then (Some DataType_kNegativeInt, r)
        else if m = kBytes then (Some DataType_kBytes, r)
        else if m = kText then (Some DataType_kText, r)
        else if m = kArray then (Some DataType_kArray, r)
        else if m = kMap then (Some DataType_kMap, r)
        else if m = kTag then (Some DataType_kTag, r)
        else if m = kSimpleOrFloat then
          (if a = 20 \<or> a = 21 then (Some DataType_kBoolean, r\<lparr>value_m := 0\<rparr>)
           else if a = 22 then (Some DataType_kNull, r\<lparr>value_m := 0\<rparr>)
           else if a = 23 then (Some DataType_kUndefined, r\<lparr>value_m := 0\<rparr>)
           else if a = 24 then
             (if value_m r < 32 then
                (Some DataType_kSyntaxError, r\<lparr>syntaxError_m := kBadSimpleValue\<rparr>)
              else (Some DataType_kSimpleValue, r))
           else if a = 25 \<or> a = 26 then (Some DataType_kFloat, r)
           else if a = 27 then (Some DataType_kDouble, r)
           else if a = 28 \<or> a = 29 \<or> a = 30 then
             (Some DataType_kSyntaxError, r\<lparr>syntaxError_m := kUnknownAdditionalInfo\<rparr>)
           else if a = 31 then (Some DataType_kBreak, r\<lparr>value_m := 0\<rparr>)
           else (Some DataType_kSimpleValue, r))
        else (Some DataType_kUnsignedInt, r))
     else (None, r))"

text \<open>Running the blocks in order; a block that returns ends the call.\<close>

definition andThen ::
  "(Reader \<Rightarrow> DataType option \<times> Reader) \<Rightarrow> (Reader \<Rightarrow> DataType option \<times> Reader) \<Rightarrow>
   Reader \<Rightarrow> DataType option \<times> Reader" where
  "andThen f g r = (case f r of (Some t, r') \<Rightarrow> (Some t, r') | (None, r') \<Rightarrow> g r')"

definition readDataType :: "Reader \<Rightarrow> DataType \<times> Reader" where
  "readDataType r =
    (case andThen rdStart (andThen rdAdditionalInfo (andThen rdWaitAvailable
            (andThen rdReadValue rdDetermineType))) r of
       (Some t, r') \<Rightarrow> (t, r')
     | (None, r') \<Rightarrow> (DataType_kEOS, r'))"

definition getSyntaxError :: "Reader \<Rightarrow> SyntaxError" where
  "getSyntaxError r = syntaxError_m r"

definition getRawValue :: "Reader \<Rightarrow> u64" where
  "getRawValue r = value_m r"

definition isIndefiniteLength :: "Reader \<Rightarrow> bool" where
  "isIndefiniteLength r =
    (if majorType_m r = kBytes \<or> majorType_m r = kText \<or> majorType_m r = kArray \<or>
        majorType_m r = kMap
     then addlInfo_m r = 31 else False)"

definition getLength :: "Reader \<Rightarrow> u64" where
  "getLength r = value_m r"

definition getBoolean :: "Reader \<Rightarrow> bool" where
  "getBoolean r =
    (if majorType_m r = kSimpleOrFloat then
       (if addlInfo_m r = 21 then True
        else if addlInfo_m r = 24 \<and> value_m r = 21 then True
        else False)
     else False)"

definition getUnsignedInt :: "Reader \<Rightarrow> u64" where
  "getUnsignedInt r = (if majorType_m r = kUnsignedInt then value_m r else 0)"

text \<open>The result is an \<^verbatim>\<open>int64_t\<close>, again a 64-bit word read by \<open>sint\<close>.\<close>

definition getInt :: "Reader \<Rightarrow> u64" where
  "getInt r = (if majorType_m r = kNegativeInt then - 1 - value_m r else 0)"

definition getSimpleValue :: "Reader \<Rightarrow> u8" where
  "getSimpleValue r = (if majorType_m r = kSimpleOrFloat then ucast (value_m r) else 0)"

definition getTag :: "Reader \<Rightarrow> u64" where
  "getTag r = (if majorType_m r = kTag then value_m r else 0)"

subsection \<open>Floating-point values\<close>

text \<open>
  A \<^verbatim>\<open>double\<close> is kept as what it denotes: a sign and a magnitude, an infinity or a NaN
  (\<open>True\<close> is the set sign bit). \<^verbatim>\<open>ldexp(x, e)\<close> is \<open>x * 2 ^ e\<close>; the reader calls it with
  \<open>0 \<le> x < 2048\<close> and \<open>-24 \<le> e \<le> 5\<close>, where the product is a \<^verbatim>\<open>double\<close> and nothing is
  rounded. \<^verbatim>\<open>copysign(v, s)\<close> is \<open>v\<close> with the sign bit of \<open>s\<close>.
\<close>

datatype double = Finite bool real | Infinite bool | NaN bool

definition double_of_int :: "int \<Rightarrow> double" where
  "double_of_int x = Finite (x < 0) \<bar>real_of_int x\<bar>"

definition ldexp :: "int \<Rightarrow> int \<Rightarrow> double" where
  "ldexp x e = Finite (x < 0) (\<bar>real_of_int x\<bar> * 2 powi e)"

definition INFINITY :: double where
  "INFINITY = Infinite False"

definition NAN :: double where
  "NAN = NaN False"

fun signbit :: "double \<Rightarrow> bool" where
  "signbit (Finite b x) = b"
| "signbit (Infinite b) = b"
| "signbit (NaN b) = b"

fun copysign :: "double \<Rightarrow> double \<Rightarrow> double" where
  "copysign (Finite b x) s = Finite (signbit s) x"
| "copysign (Infinite b) s = Infinite (signbit s)"
| "copysign (NaN b) s = NaN (signbit s)"

text \<open>
  The \<^verbatim>\<open>memcpy\<close> of the argument's bits into a \<^verbatim>\<open>float\<close> or a \<^verbatim>\<open>double\<close> reads them as
  IEEE 754 binary32 and binary64; the decomposition is the one that the reader spells
  out for the half-precision format (and, in a comment, for these two). A \<^verbatim>\<open>float\<close>
  widens to a \<^verbatim>\<open>double\<close> of the same value.
\<close>

definition float_of_bits :: "u32 \<Rightarrow> double" where
  "float_of_bits w =
    (let e = uint (drop_bit 23 w AND 255); m = uint (w AND 8388607); s = bit w 31 in
     if e = 0 then Finite s (real_of_int m * 2 powi (1 - 127 - 23))
     else if e \<noteq> 255 then Finite s (real_of_int (m + 8388608) * 2 powi (e - 127 - 23))
     else if m = 0 then Infinite s else NaN s)"

definition double_of_bits :: "u64 \<Rightarrow> double" where
  "double_of_bits w =
    (let e = uint (drop_bit 52 w AND 2047); m = uint (w AND 4503599627370495); s = bit w 63 in
     if e = 0 then Finite s (real_of_int m * 2 powi (1 - 1023 - 52))
     else if e \<noteq> 2047 then
       Finite s (real_of_int (m + 4503599627370496) * 2 powi (e - 1023 - 52))
     else if m = 0 then Infinite s else NaN s)"

definition getDouble :: "Reader \<Rightarrow> double" where
  "getDouble r =
    (if majorType_m r \<noteq> kSimpleOrFloat then double_of_int 0
     else if addlInfo_m r = 25 then
       (let half = (ucast (value_m r) :: u16);
            e = uint (drop_bit 10 half AND (push_bit 5 1 - 1));
            m = uint (half AND (push_bit 10 1 - 1));
            val =
              (if e = 0 then ldexp m (1 - 15 - 10)
               else if e \<noteq> 31 then ldexp (m + 1024) (e - 15 - 10)
               else if m = 0 then INFINITY else NAN);
            sign = (if half AND push_bit 15 1 \<noteq> 0 then double_of_int (- 1) else double_of_int 1)
        in copysign val sign)
     else if addlInfo_m r = 26 then float_of_bits (ucast (value_m r))
     else if addlInfo_m r = 27 then double_of_bits (value_m r)
     else double_of_int 0)"

text \<open>
  \<^verbatim>\<open>getFloat\<close> narrows the \<^verbatim>\<open>double\<close> with \<^verbatim>\<open>static_cast<float>\<close>. The rounding of that
  conversion is the platform's; it is the parameter \<open>to_float\<close>.
\<close>

definition getFloat :: "(double \<Rightarrow> 'f) \<Rightarrow> Reader \<Rightarrow> 'f" where
  "getFloat to_float r = to_float (getDouble r)"

subsection \<open>The states between the blocks\<close>

text \<open>
  The reader after a call in state Start that found no byte, and after the first block
  has taken the initial byte \<open>h\<close> and left the stream \<open>s\<close>; \<open>argWait\<close> is the number of
  argument bytes that the second block sets \<^verbatim>\<open>waitAvailable_\<close> to.
\<close>

definition afterEmpty :: "Reader \<Rightarrow> Reader" where
  "afterEmpty r =
    r\<lparr>in_m := [], initialByte_m := -1, value_m := 0, syntaxError_m := kNoError,
      majorType_m := 0, addlInfo_m := 0, waitAvailable_m := 0\<rparr>"

definition afterInitialByte :: "u8 \<Rightarrow> u8 list \<Rightarrow> Reader \<Rightarrow> Reader" where
  "afterInitialByte h s r =
    r\<lparr>in_m := s, initialByte_m := uint h, value_m := 0, syntaxError_m := kNoError,
      majorType_m := drop_bit 5 h, addlInfo_m := h AND 31, state_m := kAdditionalInfo\<rparr>"

definition argWait :: "u8 \<Rightarrow> int" where
  "argWait a =
    (if a = 24 then 1 else if a = 25 then 2 else if a = 26 then 4 else if a = 27 then 8
     else 0)"

section \<open>Well-formedness checks\<close>

text \<open>
  What the first \<^verbatim>\<open>switch\<close> of \<^verbatim>\<open>isWellFormed(bool)\<close>, over the additional
  information, leaves: the check has failed (\<^verbatim>\<open>return -1\<close>), the item is of indefinite
  length, or \<^verbatim>\<open>val\<close> is set. The values read are \<^verbatim>\<open>int\<close>s, \<open>-1\<close> when the stream is empty;
  they are shifted and joined as integers and tested for \<^verbatim>\<open>v < 0\<close>.
\<close>

datatype argument = ArgMalformed "u8 list" | ArgIndefinite | ArgValue u64 "u8 list"

definition read4 :: "u8 list \<Rightarrow> int \<times> u8 list" where
  "read4 s =
    (let (b3, s) = in_read s; (b2, s) = in_read s; (b1, s) = in_read s; (b0, s) = in_read s
     in (push_bit 24 b3 OR push_bit 16 b2 OR push_bit 8 b1 OR b0, s))"

definition readArgument :: "u8 \<Rightarrow> u8 \<Rightarrow> u8 list \<Rightarrow> argument" where
  "readArgument majorType ai s =
    (if ai = 24 then
       (let (v, s) = in_read s in
        if v < 0 then ArgMalformed s
        else let val = (ucast (word_of_int v :: u8) :: u64) in
          if majorType = kSimpleOrFloat \<and> val < 32 then ArgMalformed s else ArgValue val s)
     else if ai = 25 then
       (let (b1, s) = in_read s; (b0, s) = in_read s; v = push_bit 8 b1 OR b0 in
        if v < 0 then ArgMalformed s else ArgValue (ucast (word_of_int v :: u16)) s)
     else if ai = 26 then
       (let (v, s) = read4 s in
        if v < 0 then ArgMalformed s else ArgValue (ucast (word_of_int v :: u32)) s)
     else if ai = 27 then
       (let val = 0; (v, s) = read4 s in
        if v < 0 then ArgMalformed s
        else let val = push_bit 32 val OR ucast (word_of_int v :: u32); (v, s) = read4 s in
          if v < 0 then ArgMalformed s
          else ArgValue (push_bit 32 val OR ucast (word_of_int v :: u32)) s)
     else if ai = 28 \<or> ai = 29 \<or> ai = 30 then ArgMalformed s
     else if ai = 31 then ArgIndefinite
     else ArgValue (ucast ai) s)"

text \<open>
  The loop over the content of a definite-length byte or text string. It runs on a
  32-bit counter when \<^verbatim>\<open>val <= UINT32_MAX\<close> and on a 64-bit counter otherwise;
  \<open>loopCount\<close> is the number of rounds, and the loop over the items of an array or a map
  counts in the same way.
\<close>

fun skipBytes :: "nat \<Rightarrow> u8 list \<Rightarrow> bool \<times> u8 list" where
  "skipBytes 0 s = (True, s)"
| "skipBytes (Suc i) s = (let (b, s) = in_read s in if b < 0 then (False, s) else skipBytes i s)"

definition loopCount :: "u64 \<Rightarrow> nat" where
  "loopCount val = (if val \<le> 0xFFFFFFFF then unat (ucast val :: u32) else unat val)"

text \<open>
  The head of an item: the initial byte and the argument, that is \<^verbatim>\<open>isWellFormed(bool)\<close>
  up to the second \<^verbatim>\<open>switch\<close>.
\<close>

datatype head = HeadMalformed "u8 list" | HeadIndefinite u8 "u8 list" | HeadDefinite u8 u64 "u8 list"

definition readHead :: "u8 list \<Rightarrow> head" where
  "readHead s =
    (let (ib, s) = in_read s in
     if ib < 0 then HeadMalformed s
     else
       let majorType = drop_bit 5 (word_of_int ib :: u8);
           ai = (word_of_int (ib AND 0x1f) :: u8)
       in case readArgument majorType ai s of
            ArgMalformed s \<Rightarrow> HeadMalformed s
          | ArgIndefinite \<Rightarrow> HeadIndefinite majorType s
          | ArgValue val s \<Rightarrow> HeadDefinite majorType val s)"

text \<open>
  After a loop: \<^verbatim>\<open>return -1\<close> if it was left with a failure, \<^verbatim>\<open>return majorType\<close> if it
  ran to its end; after the item of a tag likewise.
\<close>

definition loopResult :: "u8 \<Rightarrow> (bool \<times> u8 list) option \<Rightarrow> (int \<times> u8 list) option" where
  "loopResult majorType r =
    (case r of None \<Rightarrow> None | Some (True, s) \<Rightarrow> Some (uint majorType, s)
     | Some (False, s) \<Rightarrow> Some (-1, s))"

definition tagResult :: "u8 \<Rightarrow> (int \<times> u8 list) option \<Rightarrow> (int \<times> u8 list) option" where
  "tagResult majorType r =
    (case r of None \<Rightarrow> None
     | Some (t, s) \<Rightarrow> if t < 0 then Some (-1, s) else Some (uint majorType, s))"

text \<open>
  The two mutually recursive functions and their loops. The first argument is fuel: a
  call of \<^verbatim>\<open>isWellFormed(bool)\<close> and a round of a \<^verbatim>\<open>while (true)\<close> loop each take one unit,
  and \<open>None\<close> is the result when there is none left. The result is otherwise the
  \<^verbatim>\<open>int\<close> returned (\<open>-1\<close> malformed, \<open>-2\<close> break, or the major type) and the stream that
  is left.
\<close>

function (sequential) isWellFormed :: "nat \<Rightarrow> bool \<Rightarrow> u8 list \<Rightarrow> (int \<times> u8 list) option"
  and isIndefiniteWellFormed :: "nat \<Rightarrow> u8 \<Rightarrow> bool \<Rightarrow> u8 list \<Rightarrow> (int \<times> u8 list) option"
  and itemsLoop :: "nat \<Rightarrow> nat \<Rightarrow> u8 list \<Rightarrow> (bool \<times> u8 list) option"
  and stringLoop :: "nat \<Rightarrow> u8 \<Rightarrow> u8 list \<Rightarrow> (bool \<times> u8 list) option"
  and arrayLoop :: "nat \<Rightarrow> u8 list \<Rightarrow> (bool \<times> u8 list) option"
  and mapLoop :: "nat \<Rightarrow> u8 list \<Rightarrow> (bool \<times> u8 list) option"
where
  "isWellFormed 0 breakable s = None"
| "isWellFormed (Suc n) breakable s =
    (case readHead s of
       HeadMalformed s \<Rightarrow> Some (-1, s)
     | HeadIndefinite majorType s \<Rightarrow> isIndefiniteWellFormed n majorType breakable s
     | HeadDefinite majorType val s \<Rightarrow>
         if majorType = 2 \<or> majorType = 3 then
           loopResult majorType (Some (skipBytes (loopCount val) s))
         else if majorType = 5 then
           (if val \<noteq> 0 \<and> 2 * val \<le> val then Some (-1, s)
            else loopResult majorType (itemsLoop n (loopCount (push_bit 1 val)) s))
         else if majorType = 4 then
           loopResult majorType (itemsLoop n (loopCount val) s)
         else if majorType = 6 then
           tagResult majorType (isWellFormed n False s)
         else Some (uint majorType, s))"
| "isIndefiniteWellFormed n majorType breakable s =
    (if majorType = kBytes \<or> majorType = kText then
       loopResult majorType (stringLoop n majorType s)
     else if majorType = kArray then
       loopResult majorType (arrayLoop n s)
     else if majorType = kMap then
       loopResult majorType (mapLoop n s)
     else if majorType = kSimpleOrFloat then
       (if breakable then Some (-2, s) else Some (-1, s))
     else Some (-1, s))"
| "itemsLoop n 0 s = Some (True, s)"
| "itemsLoop n (Suc i) s =
    (case isWellFormed n False s of
       None \<Rightarrow> None
     | Some (t, s) \<Rightarrow> if t < 0 then Some (False, s) else itemsLoop n i s)"
| "stringLoop 0 majorType s = None"
| "stringLoop (Suc n) majorType s =
    (case isWellFormed n True s of
       None \<Rightarrow> None
     | Some (t, s) \<Rightarrow>
         if t = -2 then Some (True, s)
         else if t = -1 then Some (False, s)
         else if t \<noteq> uint majorType then Some (False, s)
         else stringLoop n majorType s)"
| "arrayLoop 0 s = None"
| "arrayLoop (Suc n) s =
    (case isWellFormed n True s of
       None \<Rightarrow> None
     | Some (t, s) \<Rightarrow>
         if t = -2 then Some (True, s)
         else if t = -1 then Some (False, s)
         else arrayLoop n s)"
| "mapLoop 0 s = None"
| "mapLoop (Suc n) s =
    (case isWellFormed n True s of
       None \<Rightarrow> None
     | Some (t, s) \<Rightarrow>
         if t = -2 then Some (True, s)
         else if t = -1 then Some (False, s)
         else
           (case isWellFormed n False s of
              None \<Rightarrow> None
            | Some (t, s) \<Rightarrow> if t < 0 then Some (False, s) else mapLoop n s))"
  by pat_completeness auto
termination
  by (relation "measures
       [case_sum (case_sum (\<lambda>(n, b, s). n) (case_sum (\<lambda>(n, m, b, s). n) (\<lambda>(n, i, s). n)))
          (case_sum (\<lambda>(n, m, s). n) (case_sum (\<lambda>(n, s). n) (\<lambda>(n, s). n))),
        case_sum (case_sum (\<lambda>_. 0) (case_sum (\<lambda>_. 2) (\<lambda>_. 1))) (\<lambda>_. 1),
        case_sum (case_sum (\<lambda>_. 0) (case_sum (\<lambda>_. 0) (\<lambda>(n, i, s). i))) (\<lambda>_. 0)]")
    auto

declare isWellFormed.simps [simp del] isIndefiniteWellFormed.simps [simp del]

text \<open>
  The public \<^verbatim>\<open>isWellFormed()\<close>: the item is well-formed if the result is not negative.
  The fuel is enough for every stream (\<open>isWellFormed_returns\<close> below).
\<close>

definition isWellFormed_top :: "u8 list \<Rightarrow> bool option" where
  "isWellFormed_top s =
    map_option (\<lambda>(t, s). t \<ge> 0) (isWellFormed (2 * length s + 1) False s)"

section \<open>The notions of the specification\<close>

text \<open>
  The five argument widths, in the words of the specification: width \<open>0\<close> is the
  argument embedded in the initial byte, possible below 24; a width of \<open>w\<close> bytes can
  represent what is below \<open>2 ^ (8 * w)\<close>. \<open>argBytes w u\<close> are the \<open>w\<close> low bytes of \<open>u\<close>,
  the most significant first, and \<open>argCode\<close> is the additional information that
  announces the width.
\<close>

definition argFits :: "nat \<Rightarrow> u64 \<Rightarrow> bool" where
  "argFits w u = (if w = 0 then unat u < 24 else unat u < 2 ^ (8 * w))"

definition argBytes :: "nat \<Rightarrow> u64 \<Rightarrow> u8 list" where
  "argBytes w u = map (\<lambda>k. ucast (drop_bit (8 * k) u)) (rev [0..<w])"

definition argCode :: "nat \<Rightarrow> u64 \<Rightarrow> u8" where
  "argCode w u = (if w = 0 then ucast u else if w = 1 then 24 else if w = 2 then 25
     else if w = 4 then 26 else 27)"

text \<open>
  Modelled from the spec: the constructor of \<^verbatim>\<open>Reader\<close> is in \<^verbatim>\<open>CBOR.h\<close>, which is not among
  the sources. The specification's state table has Start entered by construction; the
  other members are overwritten by the first call before they are read.
\<close>

definition newReader :: "u8 list \<Rightarrow> Reader" where
  "newReader s = \<lparr>in_m = s, state_m = kStart, initialByte_m = 0, majorType_m = 0, addlInfo_m = 0,
     waitAvailable_m = 0, value_m = 0, syntaxError_m = kNoError\<rparr>"

text \<open>
  A stream that cannot supply the bytes of the current item header: it is empty, or its
  initial byte announces more argument bytes than follow.
\<close>

definition headerIncomplete :: "u8 list \<Rightarrow> bool" where
  "headerIncomplete s = (case s of [] \<Rightarrow> True | h # s' \<Rightarrow> int (length s') < argWait (h AND 31))"

text \<open>The logical type of an integer item, by its major type.\<close>

definition intDataType :: "u8 \<Rightarrow> DataType" where
  "intDataType m = (if m = kUnsignedInt then DataType_kUnsignedInt else DataType_kNegativeInt)"

text \<open>
  \<open>childItems n i s s'\<close>: \<open>i\<close> calls of \<^verbatim>\<open>isWellFormed(false)\<close> in a row, each on what the one
  before has left and each accepting an item, take the stream \<open>s\<close> to \<open>s'\<close>.
\<close>

inductive childItems :: "nat \<Rightarrow> nat \<Rightarrow> u8 list \<Rightarrow> u8 list \<Rightarrow> bool" for n where
  childItems_0: "childItems n 0 s s"
| childItems_Suc: "isWellFormed n False s = Some (t, s1) \<Longrightarrow> 0 \<le> t \<Longrightarrow> childItems n i s1 s' \<Longrightarrow>
    childItems n (Suc i) s s'"

text \<open>
  \<open>stringChunks majorType s s'\<close>: the stream \<open>s\<close> is a sequence of items, each accepted by
  the checker and each with \<open>majorType\<close> in its initial byte, and then the break byte,
  after which \<open>s'\<close> is left.
\<close>

inductive stringChunks :: "u8 \<Rightarrow> u8 list \<Rightarrow> u8 list \<Rightarrow> bool" for majorType where
  stringChunks_break: "stringChunks majorType (0xFF # s') s'"
| stringChunks_chunk: "isWellFormed n True (c # s) = Some (uint majorType, s1) \<Longrightarrow>
    drop_bit 5 c = majorType \<Longrightarrow> stringChunks majorType s1 s' \<Longrightarrow>
    stringChunks majorType (c # s) s'"

section \<open>Words and bytes\<close>

lemma less_unat_simps:
  "(u::u64) < 24 \<longleftrightarrow> unat u < 24"
  "(u::u64) < 256 \<longleftrightarrow> unat u < 256"
  "(u::u64) < 65536 \<longleftrightarrow> unat u < 65536"
  "(u::u64) < 4294967296 \<longleftrightarrow> unat u < 4294967296"
  by (simp_all add: word_less_nat_alt)

lemma argBytes_simps:
  "argBytes 0 u = []"
  "argBytes (Suc 0) u = [ucast u]"
  "argBytes 2 u = [ucast (drop_bit 8 u), ucast u]"
  "argBytes 4 u = [ucast (drop_bit 24 u), ucast (drop_bit 16 u), ucast (drop_bit 8 u), ucast u]"
  "argBytes 8 u = [ucast (drop_bit 56 u), ucast (drop_bit 48 u), ucast (drop_bit 40 u),
     ucast (drop_bit 32 u), ucast (drop_bit 24 u), ucast (drop_bit 16 u), ucast (drop_bit 8 u),
     ucast u]"
  by (simp_all add: argBytes_def upt_rec numeral_eq_Suc)

lemma take_bit_8_add_64:
  "take_bit 8 ((a::int) + b) = take_bit 8 (take_bit 64 a + take_bit 64 b)"
proof -
  have "take_bit 8 (take_bit 64 a + take_bit 64 b) =
      take_bit 8 (take_bit 64 (take_bit 64 a + take_bit 64 b))"
    by (simp add: take_bit_take_bit)
  also have "\<dots> = take_bit 8 (take_bit 64 (a + b))"
    by (simp only: take_bit_add)
  also have "\<dots> = take_bit 8 (a + b)"
    by (simp add: take_bit_take_bit)
  finally show ?thesis by simp
qed

lemma ucast_add_down: "(ucast ((a::u64) + b) :: u8) = ucast a + ucast b"
  by transfer (use take_bit_8_add_64 in simp)

lemma ucast_head_add: "(ucast (ucast (mt::u8) + (u::u64)) :: u8) = mt + ucast u"
  by (simp add: ucast_add_down ucast_up_ucast_id is_up)

lemma bit_below:
  fixes w :: "'a::len word"
  assumes "w < 2 ^ k" and "bit w n" shows "n < k"
proof -
  have "w AND mask k = w" using assms(1) by (rule less_mask_eq)
  then have "bit (w AND mask k) n" using assms(2) by simp
  then show ?thesis by (simp add: bit_simps)
qed

lemma addl_of_int: "(word_of_int (uint (b::u8) AND 0x1f) :: u8) = b AND 0x1f"
  by (rule bit_word_eqI) (auto simp: bit_simps)

lemma unat_ucast_up: "unat (ucast (b::u8) :: u64) = unat b"
proof -
  have "unat b < 2 ^ 8" using unsigned_less [of b] by simp
  then have "unat b < 2 ^ 64" by simp
  then show ?thesis by (simp add: unsigned_ucast_eq take_bit_nat_eq_self)
qed

lemma ucast_less_32: "(ucast (b::u8) :: u64) < 32 \<longleftrightarrow> b < 32"
  by (simp add: word_less_nat_alt unat_ucast_up)

lemma ucast_eq_21: "(ucast (b::u8) :: u64) = 21 \<longleftrightarrow> b = 21"
  by (simp add: word_unat_eq_iff unat_ucast_up)

lemma byte_split_eq:
  fixes h :: u8
  shows "drop_bit 5 h = m \<and> h AND 31 = a \<longleftrightarrow> h = push_bit 5 m OR a \<and> a < 32 \<and> m < 8"
proof
  assume l: "drop_bit 5 h = m \<and> h AND 31 = a"
  have m31: "(31 :: u8) = mask 5" by (simp add: mask_eq_exp_minus_1)
  have "h = push_bit 5 m OR a"
    unfolding l [THEN conjunct1, symmetric] l [THEN conjunct2, symmetric] m31
    by (rule bit_word_eqI) (auto simp: bit_simps)
  moreover have "a < 32"
    using and_mask_less_size [of 5 h] l by (simp add: m31 word_size)
  moreover have "m < 8"
  proof -
    have "unat (drop_bit 5 h) = drop_bit 5 (unat h)" by (rule unat_drop_bit_eq)
    also have "\<dots> = unat h div 2 ^ 5" by (rule drop_bit_eq_div)
    finally have "unat (drop_bit 5 h) = unat h div 2 ^ 5" .
    moreover have "unat h < 2 ^ 8" using unsigned_less [of h] by simp
    ultimately have "unat (drop_bit 5 h) < 8" by simp
    then show ?thesis using l by (simp add: word_less_nat_alt)
  qed
  ultimately show "h = push_bit 5 m OR a \<and> a < 32 \<and> m < 8" by simp
next
  assume r: "h = push_bit 5 m OR a \<and> a < 32 \<and> m < 8"
  have a: "bit a n \<Longrightarrow> n < 5" for n using bit_below [of a 5 n] r by simp
  have m: "bit m n \<Longrightarrow> n < 3" for n using bit_below [of m 3 n] r by simp
  have m31: "(31 :: u8) = mask 5" by (simp add: mask_eq_exp_minus_1)
  have "drop_bit 5 h = m"
    unfolding r [THEN conjunct1] by (rule bit_word_eqI) (auto simp: bit_simps dest: a m)
  moreover have "h AND 31 = a"
    unfolding r [THEN conjunct1] m31 by (rule bit_word_eqI) (auto simp: bit_simps dest: a m)
  ultimately show "drop_bit 5 h = m \<and> h AND 31 = a" by simp
qed

lemma sign_mask: "signed_drop_bit 63 (i :: u64) = (if sint i < 0 then - 1 else 0)"
proof -
  have s: "bit i 63 \<longleftrightarrow> sint i < 0" using bit_last_iff [of i] by simp
  show ?thesis
    by (rule bit_word_eqI) (auto simp: bit_signed_drop_bit_iff s not_less_eq_eq)
qed

lemma bit_byte_at:
  fixes u :: u64
  shows "bit (push_bit k (ucast (ucast (drop_bit k u) :: u8) :: u64)) n \<longleftrightarrow>
    k \<le> n \<and> n < k + 8 \<and> n < 64 \<and> bit u n"
  by (auto simp: bit_simps)

lemma bit_byte_0:
  fixes u :: u64
  shows "bit (ucast (ucast u :: u8) :: u64) n \<longleftrightarrow> n < 8 \<and> bit u n"
  by (auto simp: bit_simps)

lemma bit_byte_at_32:
  fixes u :: u64
  shows "bit (push_bit k (ucast (ucast (drop_bit k u) :: u8) :: u32)) n \<longleftrightarrow>
    k \<le> n \<and> n < k + 8 \<and> n < 32 \<and> bit u n"
  by (auto simp: bit_simps)

lemma bit_byte_0_32:
  fixes u :: u64
  shows "bit (ucast (ucast u :: u8) :: u32) n \<longleftrightarrow> n < 8 \<and> bit u n"
  by (auto simp: bit_simps)

lemma be1:
  fixes u :: u64
  assumes "u < 2 ^ 8"
  shows "ucast (ucast u :: u8) = u"
proof (rule bit_word_eqI)
  fix n
  have "bit u n \<Longrightarrow> n < 8" using bit_below [OF assms] .
  then show "bit (ucast (ucast u :: u8) :: u64) n = bit u n"
    by (auto simp: bit_byte_0)
qed

lemma be2:
  fixes u :: u64
  assumes "u < 2 ^ 16"
  shows "ucast (push_bit 8 (ucast (ucast (ucast (drop_bit 8 u) :: u8) :: u16) :: u32) OR
    ucast (ucast (ucast u :: u8) :: u16)) = u"
proof (rule bit_word_eqI)
  fix n
  have b: "bit u n \<Longrightarrow> n < 16" using bit_below [OF assms] .
  show "bit (ucast (push_bit 8 (ucast (ucast (ucast (drop_bit 8 u) :: u8) :: u16) :: u32) OR
      ucast (ucast (ucast u :: u8) :: u16)) :: u64) n = bit u n"
    using b by (auto simp: bit_simps)
qed

lemma be4:
  fixes u :: u64
  assumes "u < 2 ^ 32"
  shows "ucast (push_bit 24 (ucast (ucast (drop_bit 24 u) :: u8) :: u32) OR
    push_bit 16 (ucast (ucast (drop_bit 16 u) :: u8)) OR
    push_bit 8 (ucast (ucast (drop_bit 8 u) :: u8)) OR ucast (ucast u :: u8)) = u"
proof (rule bit_word_eqI)
  fix n
  have b: "bit u n \<Longrightarrow> n < 32" using bit_below [OF assms] .
  show "bit (ucast (push_bit 24 (ucast (ucast (drop_bit 24 u) :: u8) :: u32) OR
    push_bit 16 (ucast (ucast (drop_bit 16 u) :: u8)) OR
    push_bit 8 (ucast (ucast (drop_bit 8 u) :: u8)) OR ucast (ucast u :: u8)) :: u64) n = bit u n"
    unfolding bit_ucast_iff bit_or_iff bit_byte_at_32 bit_byte_0_32 using b by auto
qed

lemma be8:
  fixes u :: u64
  shows "push_bit 56 (ucast (ucast (drop_bit 56 u) :: u8)) OR
    push_bit 48 (ucast (ucast (drop_bit 48 u) :: u8)) OR
    push_bit 40 (ucast (ucast (drop_bit 40 u) :: u8)) OR
    push_bit 32 (ucast (ucast (drop_bit 32 u) :: u8)) OR
    push_bit 24 (ucast (ucast (drop_bit 24 u) :: u8)) OR
    push_bit 16 (ucast (ucast (drop_bit 16 u) :: u8)) OR
    push_bit 8 (ucast (ucast (drop_bit 8 u) :: u8)) OR ucast (ucast u :: u8) = u"
  apply (rule bit_word_eqI)
  apply (simp only: bit_or_iff bit_byte_at bit_byte_0)
  apply (simp only: len_bit0 len_num1 One_nat_def)
  apply arith
  done

lemma head_byte:
  fixes m c :: u8
  assumes "c < 32" "m < 8"
  shows "drop_bit 5 (push_bit 5 m + c) = m \<and> (push_bit 5 m + c) AND 31 = c"
proof -
  have c: "bit c n \<Longrightarrow> n < 5" for n using bit_below [of c 5 n] assms by simp
  have "push_bit 5 m + c = push_bit 5 m OR c"
    by (rule disjunctive_add) (auto simp: bit_simps dest: c)
  then show ?thesis using byte_split_eq [of "push_bit 5 m + c" m c] assms by simp
qed

lemma uint_complement:
  fixes i :: u64
  assumes "sint i < 0"
  shows "uint (- 1 - i) = - 1 - sint i"
proof -
  have n: "- 1 - i = NOT i" by (simp add: not_eq_complement)
  have l: "- (2 ^ 63) \<le> sint i" using sint_ge [of i] by simp
  have "sint (NOT i) = signed_take_bit 64 (NOT (sint i))"
    using signed_not_eq [of i, where 'a = int] by simp
  also have "\<dots> = NOT (sint i)"
    using l assms by (intro signed_take_bit_int_eq_self) (simp_all add: not_int_def)
  finally have s: "sint (NOT i) = - 1 - sint i" by (simp add: not_int_def)
  have "uint (NOT i) = take_bit 64 (sint (NOT i))" using uint_sint [of "NOT i"] by simp
  also have "\<dots> = sint (NOT i)"
    using l assms s by (intro take_bit_int_eq_self) simp_all
  finally show ?thesis using n s by simp
qed

lemma loopCount_eq: "loopCount val = unat val"
proof (cases "val \<le> 0xFFFFFFFF")
  case True
  then have "unat val < 2 ^ 32" by (simp add: word_le_nat_alt)
  then have "unat (ucast val :: u32) = unat val"
    by (simp add: unsigned_ucast_eq take_bit_nat_eq_self)
  with True show ?thesis by (simp add: loopCount_def)
next
  case False
  then show ?thesis by (simp add: loopCount_def)
qed

lemma map_guard_iff:
  fixes val :: u64
  shows "val \<noteq> 0 \<and> 2 * val \<le> val \<longleftrightarrow> 2 ^ 63 \<le> val"
proof -
  have b: "unat val < 2 ^ 64" using unsigned_less [of val] by simp
  have m: "unat (2 * val) = (2 * unat val) mod 2 ^ 64"
    by (simp add: unat_word_ariths)
  have z: "val \<noteq> 0 \<longleftrightarrow> unat val \<noteq> 0" by (simp add: unat_eq_0)
  show ?thesis
  proof (cases "unat val < 2 ^ 63")
    case True
    then have "unat (2 * val) = 2 * unat val" using m by simp
    with True show ?thesis by (auto simp add: word_le_nat_alt z)
  next
    case False
    then have "unat (2 * val) = 2 * unat val - 2 ^ 64"
      using m b by (simp add: mod_if)
    with False b show ?thesis by (simp add: word_le_nat_alt z)
  qed
qed

lemma unat_double:
  fixes val :: u64
  assumes "val < 2 ^ 63"
  shows "unat (val * 2) = 2 * unat val"
proof -
  have "unat val < 2 ^ 63" using assms by (simp add: word_less_nat_alt)
  then show ?thesis by (simp add: unat_word_ariths)
qed

lemma unat_and_mask: "unat (w AND mask n) = unat w mod 2 ^ n"
proof -
  have "unat (w AND mask n) = unat (take_bit n w)" by (simp only: take_bit_eq_mask)
  also have "\<dots> = take_bit n (unat w)" by (rule unsigned_take_bit_eq)
  also have "\<dots> = unat w mod 2 ^ n" by (rule take_bit_eq_mod)
  finally show ?thesis .
qed

lemma half_fields:
  fixes half :: u16
  assumes "unat half = s * 2 ^ 15 + e * 2 ^ 10 + m" "s < 2" "e < 32" "m < 1024"
  shows "uint (drop_bit 10 half AND 31) = int e" "uint (half AND 1023) = int m"
    "half AND 32768 \<noteq> 0 \<longleftrightarrow> s = 1"
proof -
  have m31: "(31 :: u16) = mask 5" and m1023: "(1023 :: u16) = mask 10"
    by (simp_all add: mask_eq_exp_minus_1)
  have d: "unat (drop_bit 10 half) = s * 32 + e"
  proof -
    have "unat (drop_bit 10 half) = drop_bit 10 (unat half)" by (rule unat_drop_bit_eq)
    also have "\<dots> = unat half div 2 ^ 10" by (rule drop_bit_eq_div)
    also have "\<dots> = s * 32 + e" using assms by simp
    finally show ?thesis .
  qed
  have "unat (drop_bit 10 half AND 31) = unat (drop_bit 10 half) mod 2 ^ 5"
    unfolding m31 by (rule unat_and_mask)
  also have "\<dots> = (s * 2 ^ 5 + e) mod 2 ^ 5" using d by simp
  also have "\<dots> = e" using assms(3) by (simp only: mod_mult_self3) simp
  finally have "unat (drop_bit 10 half AND 31) = e" .
  then show "uint (drop_bit 10 half AND 31) = int e"
    by (metis uint_nat)
  have "unat (half AND 1023) = unat half mod 2 ^ 10"
    unfolding m1023 by (rule unat_and_mask)
  also have "unat half = (s * 32 + e) * 2 ^ 10 + m" using assms(1) by (simp add: algebra_simps)
  also have "((s * 32 + e) * 2 ^ 10 + m) mod 2 ^ 10 = m"
    using assms(4) by (simp only: mod_mult_self3) simp
  finally have "unat (half AND 1023) = m" .
  then show "uint (half AND 1023) = int m"
    by (metis uint_nat)
  have "bit half 15 \<longleftrightarrow> bit (unat half) 15"
    by (simp add: bit_unsigned_iff)
  also have "\<dots> \<longleftrightarrow> odd (unat half div 2 ^ 15)"
    by (rule bit_iff_odd)
  also have "unat half div 2 ^ 15 = s" using assms by simp
  also have "odd s \<longleftrightarrow> s = 1" using assms(2) by (cases s) auto
  finally have b: "bit half 15 \<longleftrightarrow> s = 1" .
  have "half AND 32768 = 0 \<longleftrightarrow> \<not> bit half 15"
    using and_exp_eq_0_iff_not_bit [of half 15] by simp
  with b show "half AND 32768 \<noteq> 0 \<longleftrightarrow> s = 1" by simp
qed

lemma unat_half_payload:
  fixes hi lo :: u8
  shows "unat (ucast (ucast (push_bit 8 (ucast (ucast hi :: u16) :: u32) OR
    ucast (ucast lo :: u16)) :: u64) :: u16) = unat hi * 2 ^ 8 + unat lo"
proof -
  have e: "(ucast (ucast (push_bit 8 (ucast (ucast hi :: u16) :: u32) OR
    ucast (ucast lo :: u16)) :: u64) :: u16) = push_bit 8 (ucast hi) + ucast lo"
  proof -
    have "(ucast (ucast (push_bit 8 (ucast (ucast hi :: u16) :: u32) OR
        ucast (ucast lo :: u16)) :: u64) :: u16) = push_bit 8 (ucast hi) OR ucast lo"
      by (rule bit_word_eqI) (auto simp: bit_simps)
    also have "\<dots> = push_bit 8 (ucast hi) + ucast lo"
      by (rule disjunctive_add [symmetric]) (auto simp: bit_simps dest: bit_imp_le_length)
    finally show ?thesis .
  qed
  have h: "unat (ucast hi :: u16) = unat hi" and l: "unat (ucast lo :: u16) = unat lo"
    using unsigned_less [of hi, where 'a = nat] unsigned_less [of lo, where 'a = nat]
    by (simp_all add: unsigned_ucast_eq take_bit_nat_eq_self)
  have "unat hi < 2 ^ 8" "unat lo < 2 ^ 8"
    using unsigned_less [of hi, where 'a = nat] unsigned_less [of lo, where 'a = nat] by simp_all
  then have "unat hi * 2 ^ 8 + unat lo < 2 ^ 16" by simp
  then show ?thesis
    unfolding e by (simp add: push_bit_eq_mult unat_word_ariths h l)
qed

lemma read4_nonneg:
  "0 \<le> push_bit 24 (uint (b3::u8)) OR push_bit 16 (uint (b2::u8)) OR push_bit 8 (uint (b1::u8)) OR uint (b0::u8)"
  by simp

lemma bit_int_byte:
  fixes u :: u64
  shows "bit (push_bit k (uint (ucast (drop_bit j u) :: u8))) n \<longleftrightarrow> k \<le> n \<and> n < k + 8 \<and> bit u (n - k + j)"
  by (auto simp: bit_simps add.commute)

lemma read4_word:
  fixes u :: u64
  shows "bit (ucast (word_of_int (push_bit 24 (uint (ucast (drop_bit (j + 24) u) :: u8)) OR
      push_bit 16 (uint (ucast (drop_bit (j + 16) u) :: u8)) OR
      push_bit 8 (uint (ucast (drop_bit (j + 8) u) :: u8)) OR
      push_bit 0 (uint (ucast (drop_bit j u) :: u8))) :: u32) :: u64) n \<longleftrightarrow> n < 32 \<and> bit u (n + j)"
  unfolding bit_ucast_iff bit_word_of_int_iff bit_or_iff bit_int_byte
  apply (simp only: len_bit0 len_num1 One_nat_def)
  apply (cases "n < 8"; cases "n < 16"; cases "n < 24"; cases "n < 32"; simp add: add.commute add.left_commute)
  done

lemma read4_word_hi:
  fixes u :: u64
  shows "bit (ucast (word_of_int (push_bit 24 (uint (ucast (drop_bit 56 u) :: u8)) OR
      push_bit 16 (uint (ucast (drop_bit 48 u) :: u8)) OR
      push_bit 8 (uint (ucast (drop_bit 40 u) :: u8)) OR
      uint (ucast (drop_bit 32 u) :: u8)) :: u32) :: u64) n \<longleftrightarrow> n < 32 \<and> bit u (n + 32)"
  using read4_word [of 32 u n] by simp

lemma read4_word_lo:
  fixes u :: u64
  shows "bit (ucast (word_of_int (push_bit 24 (uint (ucast (drop_bit 24 u) :: u8)) OR
      push_bit 16 (uint (ucast (drop_bit 16 u) :: u8)) OR
      push_bit 8 (uint (ucast (drop_bit 8 u) :: u8)) OR
      uint (ucast u :: u8)) :: u32) :: u64) n \<longleftrightarrow> n < 32 \<and> bit u n"
  using read4_word [of 0 u n] by simp

lemma read8_word:
  fixes u :: u64
  shows "push_bit 32 (ucast (word_of_int (push_bit 24 (uint (ucast (drop_bit 56 u) :: u8)) OR
      push_bit 16 (uint (ucast (drop_bit 48 u) :: u8)) OR
      push_bit 8 (uint (ucast (drop_bit 40 u) :: u8)) OR
      uint (ucast (drop_bit 32 u) :: u8)) :: u32) :: u64) OR
    ucast (word_of_int (push_bit 24 (uint (ucast (drop_bit 24 u) :: u8)) OR
      push_bit 16 (uint (ucast (drop_bit 16 u) :: u8)) OR
      push_bit 8 (uint (ucast (drop_bit 8 u) :: u8)) OR
      uint (ucast u :: u8)) :: u32) = u"
  apply (rule bit_word_eqI)
  apply (simp only: bit_or_iff bit_push_bit_iff read4_word_hi read4_word_lo)
  apply (simp only: len_bit0 len_num1 One_nat_def)
  apply (auto simp: not_less)
  done

section \<open>The Writer's argument encoder\<close>

lemma writeTypedInt_cases:
  "writeTypedInt mt u out =
    (if unat u < 24 then out @ [mt + ucast u]
     else if unat u < 256 then out @ (mt + 24) # argBytes 1 u
     else if unat u < 65536 then out @ (mt + 25) # argBytes 2 u
     else if unat u < 4294967296 then out @ (mt + 26) # argBytes 4 u
     else out @ (mt + 27) # argBytes 8 u)"
  by (simp add: writeTypedInt_def less_unat_simps out_write_def argBytes_simps ucast_head_add)

text \<open>
  C4. For every first argument \<open>mt\<close> (the major type, already shifted into the top three
  bits by the callers) and every 64-bit \<open>u\<close>, \<^verbatim>\<open>writeTypedInt\<close> appends one initial byte
  \<open>mt + code\<close> and the argument in exactly one of the five widths 0, 1, 2, 4 or 8 bytes,
  most significant byte first; the width can represent \<open>u\<close>, and no smaller one of the
  five can.
\<close>

theorem writeTypedInt_shortest_width:
  "\<exists>w \<in> {0, 1, 2, 4, 8}.
     writeTypedInt mt u out = out @ (mt + argCode w u) # argBytes w u \<and>
     argFits w u \<and> (\<forall>w' \<in> {0, 1, 2, 4, 8}. argFits w' u \<longrightarrow> w \<le> w')"
proof -
  consider "unat u < 24" | "24 \<le> unat u" "unat u < 256" | "256 \<le> unat u" "unat u < 65536"
    | "65536 \<le> unat u" "unat u < 4294967296" | "4294967296 \<le> unat u"
    by linarith
  then show ?thesis
  proof cases
    case 1
    then show ?thesis
      by (intro bexI [of _ 0])
        (simp_all add: writeTypedInt_cases argCode_def argFits_def argBytes_simps)
  next
    case 2
    then show ?thesis
      by (intro bexI [of _ 1]) (simp_all add: writeTypedInt_cases argCode_def argFits_def)
  next
    case 3
    then show ?thesis
      by (intro bexI [of _ 2]) (simp_all add: writeTypedInt_cases argCode_def argFits_def)
  next
    case 4
    then show ?thesis
      by (intro bexI [of _ 4]) (simp_all add: writeTypedInt_cases argCode_def argFits_def)
  next
    case 5
    have "unat u < 2 ^ 64" using unsigned_less [of u] by simp
    with 5 show ?thesis
      by (intro bexI [of _ 8]) (simp_all add: writeTypedInt_cases argCode_def argFits_def)
  qed
qed

theorem writeTypedInt_shortest_width_witness:
  "writeTypedInt (push_bit 5 kUnsignedInt) 1000000 [] = [0x1A, 0x00, 0x0F, 0x42, 0x40] \<and>
   argFits 4 1000000 \<and> \<not> argFits 2 1000000"
  using writeTypedInt_shortest_width [of "push_bit 5 kUnsignedInt" 1000000 "[]"]
  by (simp add: writeTypedInt_cases argFits_def argBytes_simps kUnsignedInt_def)

section \<open>The Reader, block by block\<close>

lemmas rd_defs = rdStart_def rdAdditionalInfo_def rdWaitAvailable_def rdReadValue_def
  rdDetermineType_def andThen_def readDataType_def in_read_def in_available_def read_as_def

lemma readDataType_Start_empty:
  assumes "state_m r = kStart" "in_m r = []"
  shows "readDataType r = (DataType_kEOS, afterEmpty r)"
  using assms by (simp add: rd_defs afterEmpty_def)

lemma readDataType_Start_byte:
  assumes "state_m r = kStart" "in_m r = h # s"
  shows "readDataType r = readDataType (afterInitialByte h s r)"
  using assms by (simp add: rd_defs addl_of_int afterInitialByte_def Let_def)

lemma readDataType_AdditionalInfo_wait:
  assumes "state_m r = kAdditionalInfo" "addlInfo_m r \<in> {24, 25, 26, 27}"
  shows "readDataType r = readDataType (r\<lparr>waitAvailable_m := argWait (addlInfo_m r), state_m := kWaitAvailable\<rparr>)"
  using assms(2) by (elim insertE emptyE; simp add: assms(1) rd_defs argWait_def Let_def)

lemma readDataType_AdditionalInfo_unknown:
  assumes "state_m r = kAdditionalInfo" "addlInfo_m r \<in> {28, 29, 30}"
  shows "readDataType r = (DataType_kSyntaxError, r\<lparr>waitAvailable_m := 0, syntaxError_m := kUnknownAdditionalInfo\<rparr>)"
  using assms(2) by (elim insertE emptyE; simp add: assms(1) rd_defs Let_def)

lemma readDataType_AdditionalInfo_indefinite:
  assumes "state_m r = kAdditionalInfo" "addlInfo_m r = 31" "majorType_m r \<in> {kUnsignedInt, kNegativeInt, kTag}"
  shows "readDataType r = (DataType_kSyntaxError, r\<lparr>waitAvailable_m := 0, syntaxError_m := kNotAnIndefiniteType\<rparr>)"
  using assms by (auto simp add: rd_defs Let_def)

lemma readDataType_AdditionalInfo_value:
  assumes "state_m r = kAdditionalInfo" "addlInfo_m r \<notin> {24, 25, 26, 27, 28, 29, 30}"
     "addlInfo_m r = 31 \<longrightarrow> majorType_m r \<notin> {kUnsignedInt, kNegativeInt, kTag}"
  shows "readDataType r = readDataType (r\<lparr>waitAvailable_m := 0, state_m := kReadValue\<rparr>)"
  using assms by (auto simp add: rd_defs Let_def)

lemma readDataType_AdditionalInfo_wait_irrelevant:
  assumes "state_m r = kAdditionalInfo"
  shows "readDataType (r\<lparr>waitAvailable_m := w\<rparr>) = readDataType r"
  using assms by (simp add: rd_defs Let_def)

lemma readDataType_WaitAvailable_short:
  assumes "state_m r = kWaitAvailable" "int (length (in_m r)) < waitAvailable_m r"
  shows "readDataType r = (DataType_kEOS, r)"
  using assms by (simp add: rd_defs)

lemma readDataType_WaitAvailable_enough:
  assumes "state_m r = kWaitAvailable" "\<not> int (length (in_m r)) < waitAvailable_m r"
  shows "readDataType r = readDataType (r\<lparr>state_m := kReadValue\<rparr>)"
  using assms by (simp add: rd_defs)

lemma rdDetermineType_returns:
  assumes "state_m r = kDetermineType"
  shows "\<exists>t r'. rdDetermineType r = (Some t, r') \<and> t \<noteq> DataType_kEOS \<and> state_m r' = kStart"
  using assms by (simp add: rdDetermineType_def Let_def)

lemma readDataType_ReadValue_not_EOS:
  assumes "state_m r = kReadValue \<or> state_m r = kDetermineType"
  shows "fst (readDataType r) \<noteq> DataType_kEOS \<and> state_m (snd (readDataType r)) = kStart"
proof -
  obtain r1 where r1: "rdReadValue r = (None, r1)" "state_m r1 = kDetermineType"
    using assms by (auto simp: rdReadValue_def Let_def split: prod.splits)
  obtain t r' where t: "rdDetermineType r1 = (Some t, r')" "t \<noteq> DataType_kEOS" "state_m r' = kStart"
    using rdDetermineType_returns [OF r1(2)] by blast
  have "readDataType r = (t, r')"
    using assms r1 t by (auto simp: readDataType_def andThen_def rdStart_def rdAdditionalInfo_def rdWaitAvailable_def)
  with t show ?thesis by simp
qed

lemma argWait_pos: "0 < argWait a \<longleftrightarrow> a \<in> {24, 25, 26, 27}"
  by (simp add: argWait_def)

lemma short_header_EOS:
  assumes "state_m r = kStart" "in_m r = h # s" "int (length s) < argWait (h AND 31)"
  shows "readDataType r =
    (DataType_kEOS, (afterInitialByte h s r)\<lparr>waitAvailable_m := argWait (h AND 31), state_m := kWaitAvailable\<rparr>)"
proof -
  have a: "h AND 31 \<in> {24, 25, 26, 27}"
    using assms(3) argWait_pos [of "h AND 31"] by linarith
  have "readDataType r = readDataType (afterInitialByte h s r)"
    using assms by (simp add: readDataType_Start_byte)
  also have "\<dots> = readDataType ((afterInitialByte h s r)\<lparr>waitAvailable_m := argWait (h AND 31), state_m := kWaitAvailable\<rparr>)"
    using readDataType_AdditionalInfo_wait [of "afterInitialByte h s r"] a
    by (simp add: afterInitialByte_def)
  also have "\<dots> = (DataType_kEOS, (afterInitialByte h s r)\<lparr>waitAvailable_m := argWait (h AND 31), state_m := kWaitAvailable\<rparr>)"
    by (rule readDataType_WaitAvailable_short) (simp_all add: afterInitialByte_def assms)
  finally show ?thesis .
qed

lemma AdditionalInfo_cases:
  fixes r :: Reader
  obtains (wait) "addlInfo_m r \<in> {24, 25, 26, 27}"
  | (unknown) "addlInfo_m r \<in> {28, 29, 30}"
  | (indef) "addlInfo_m r = 31" "majorType_m r \<in> {kUnsignedInt, kNegativeInt, kTag}"
  | (val) "addlInfo_m r \<notin> {24, 25, 26, 27, 28, 29, 30}"
     "addlInfo_m r = 31 \<longrightarrow> majorType_m r \<notin> {kUnsignedInt, kNegativeInt, kTag}"
  by blast

text \<open>The major type and the additional information change in state Start only.\<close>

lemma rdAdditionalInfo_keeps:
  "majorType_m (snd (rdAdditionalInfo r)) = majorType_m r \<and> addlInfo_m (snd (rdAdditionalInfo r)) = addlInfo_m r"
  by (simp add: rdAdditionalInfo_def Let_def)

lemma rdWaitAvailable_keeps:
  "majorType_m (snd (rdWaitAvailable r)) = majorType_m r \<and> addlInfo_m (snd (rdWaitAvailable r)) = addlInfo_m r"
  by (simp add: rdWaitAvailable_def Let_def)

lemma rdReadValue_keeps:
  "majorType_m (snd (rdReadValue r)) = majorType_m r \<and> addlInfo_m (snd (rdReadValue r)) = addlInfo_m r"
  by (simp add: rdReadValue_def Let_def split: prod.splits)

lemma rdDetermineType_keeps:
  "majorType_m (snd (rdDetermineType r)) = majorType_m r \<and> addlInfo_m (snd (rdDetermineType r)) = addlInfo_m r"
  by (simp add: rdDetermineType_def Let_def)

lemma andThen_keeps:
  assumes "\<And>r. f (snd (g r)) = f r" "\<And>r. f (snd (k r)) = f r"
  shows "f (snd (andThen g k r)) = f r"
  using assms(1) [of r] assms(2) [of "snd (g r)"]
  by (cases "g r") (auto simp: andThen_def split: option.splits)

lemma readDataType_keeps:
  assumes "state_m r \<noteq> kStart"
  shows "majorType_m (snd (readDataType r)) = majorType_m r" "addlInfo_m (snd (readDataType r)) = addlInfo_m r"
proof -
  let ?k = "andThen rdAdditionalInfo (andThen rdWaitAvailable (andThen rdReadValue rdDetermineType))"
  have s: "rdStart r = (None, r)" using assms by (simp add: rdStart_def)
  have e: "snd (readDataType r) = snd (?k r)"
    by (cases "?k r") (auto simp: readDataType_def andThen_def [of rdStart] s split: option.splits)
  have "majorType_m (snd (?k r)) = majorType_m r"
    by (intro andThen_keeps) (simp_all add: rdAdditionalInfo_keeps rdWaitAvailable_keeps rdReadValue_keeps rdDetermineType_keeps)
  then show "majorType_m (snd (readDataType r)) = majorType_m r" using e by simp
  have "addlInfo_m (snd (?k r)) = addlInfo_m r"
    by (intro andThen_keeps) (simp_all add: rdAdditionalInfo_keeps rdWaitAvailable_keeps rdReadValue_keeps rdDetermineType_keeps)
  then show "addlInfo_m (snd (readDataType r)) = addlInfo_m r" using e by simp
qed

section \<open>Short reads\<close>

text \<open>A call in state AdditionalInfo that returns EOS has found too few argument bytes.\<close>

lemma AdditionalInfo_EOS:
  assumes "state_m r = kAdditionalInfo" "readDataType r = (DataType_kEOS, r1)"
  shows "addlInfo_m r \<in> {24, 25, 26, 27} \<and> int (length (in_m r)) < argWait (addlInfo_m r) \<and>
     r1 = r\<lparr>waitAvailable_m := argWait (addlInfo_m r), state_m := kWaitAvailable\<rparr>"
proof (cases r rule: AdditionalInfo_cases)
  case wait
  let ?r = "r\<lparr>waitAvailable_m := argWait (addlInfo_m r), state_m := kWaitAvailable\<rparr>"
  have e: "readDataType r = readDataType ?r"
    using assms(1) wait by (rule readDataType_AdditionalInfo_wait)
  show ?thesis
  proof (cases "int (length (in_m r)) < argWait (addlInfo_m r)")
    case True
    then have "readDataType ?r = (DataType_kEOS, ?r)"
      by (intro readDataType_WaitAvailable_short) simp_all
    with e assms(2) wait True show ?thesis by simp
  next
    case False
    then have "readDataType ?r = readDataType (?r\<lparr>state_m := kReadValue\<rparr>)"
      by (intro readDataType_WaitAvailable_enough) simp_all
    moreover have "fst (readDataType (?r\<lparr>state_m := kReadValue\<rparr>)) \<noteq> DataType_kEOS"
      using readDataType_ReadValue_not_EOS [of "?r\<lparr>state_m := kReadValue\<rparr>"] by simp
    ultimately show ?thesis using e assms(2) by (metis fst_conv)
  qed
next
  case unknown
  then show ?thesis using assms readDataType_AdditionalInfo_unknown [of r] by simp
next
  case indef
  then show ?thesis using assms readDataType_AdditionalInfo_indefinite [of r] by simp
next
  case val
  have "readDataType r = readDataType (r\<lparr>waitAvailable_m := 0, state_m := kReadValue\<rparr>)"
    using assms(1) val by (rule readDataType_AdditionalInfo_value)
  moreover have "fst (readDataType (r\<lparr>waitAvailable_m := 0, state_m := kReadValue\<rparr>)) \<noteq> DataType_kEOS"
    using readDataType_ReadValue_not_EOS [of "r\<lparr>waitAvailable_m := 0, state_m := kReadValue\<rparr>"] by simp
  ultimately show ?thesis using assms(2) by (metis fst_conv)
qed

text \<open>The four ways in which a call returns EOS.\<close>

lemma EOS_cases:
  assumes "readDataType r = (DataType_kEOS, r1)"
  obtains (empty) "state_m r = kStart" "in_m r = []" "r1 = afterEmpty r"
  | (short) h s where "state_m r = kStart" "in_m r = h # s" "int (length s) < argWait (h AND 31)"
      "r1 = (afterInitialByte h s r)\<lparr>waitAvailable_m := argWait (h AND 31), state_m := kWaitAvailable\<rparr>"
  | (addl) "state_m r = kAdditionalInfo" "addlInfo_m r \<in> {24, 25, 26, 27}"
      "int (length (in_m r)) < argWait (addlInfo_m r)"
      "r1 = r\<lparr>waitAvailable_m := argWait (addlInfo_m r), state_m := kWaitAvailable\<rparr>"
  | (waiting) "state_m r = kWaitAvailable" "int (length (in_m r)) < waitAvailable_m r" "r1 = r"
proof (cases "state_m r")
  case kStart
  show ?thesis
  proof (cases "in_m r")
    case Nil
    with kStart have "readDataType r = (DataType_kEOS, afterEmpty r)"
      by (rule readDataType_Start_empty)
    with assms have "r1 = afterEmpty r" by simp
    with kStart Nil show ?thesis by (rule empty)
  next
    case (Cons h s)
    let ?r = "afterInitialByte h s r"
    have "readDataType ?r = (DataType_kEOS, r1)"
      using assms kStart Cons by (simp add: readDataType_Start_byte)
    moreover have st: "state_m ?r = kAdditionalInfo"
      by (simp add: afterInitialByte_def)
    ultimately have e: "int (length (in_m ?r)) < argWait (addlInfo_m ?r) \<and>
      r1 = ?r\<lparr>waitAvailable_m := argWait (addlInfo_m ?r), state_m := kWaitAvailable\<rparr>"
      using AdditionalInfo_EOS [of ?r r1] by blast
    have "addlInfo_m ?r = h AND 31" "in_m ?r = s"
      by (simp_all add: afterInitialByte_def)
    with e have "int (length s) < argWait (h AND 31)"
      "r1 = ?r\<lparr>waitAvailable_m := argWait (h AND 31), state_m := kWaitAvailable\<rparr>"
      by (simp_all only:)
    with kStart Cons show ?thesis by (rule short)
  qed
next
  case kAdditionalInfo
  from AdditionalInfo_EOS [OF this assms] kAdditionalInfo show ?thesis
    by (intro addl) blast+
next
  case kWaitAvailable
  show ?thesis
  proof (cases "int (length (in_m r)) < waitAvailable_m r")
    case True
    with kWaitAvailable have "readDataType r = (DataType_kEOS, r)"
      by (rule readDataType_WaitAvailable_short)
    with assms have "r1 = r" by simp
    with kWaitAvailable True show ?thesis by (rule waiting)
  next
    case False
    then have "readDataType r = readDataType (r\<lparr>state_m := kReadValue\<rparr>)"
      using kWaitAvailable by (intro readDataType_WaitAvailable_enough) simp_all
    moreover have "fst (readDataType (r\<lparr>state_m := kReadValue\<rparr>)) \<noteq> DataType_kEOS"
      using readDataType_ReadValue_not_EOS [of "r\<lparr>state_m := kReadValue\<rparr>"] by simp
    ultimately show ?thesis using assms by (metis fst_conv)
  qed
next
  case kReadValue
  then show ?thesis using readDataType_ReadValue_not_EOS [of r] assms by simp
next
  case kDetermineType
  then show ?thesis using readDataType_ReadValue_not_EOS [of r] assms by simp
qed

lemma EOS_idempotent:
  assumes "readDataType r = (DataType_kEOS, r1)"
  shows "readDataType r1 = (DataType_kEOS, r1)"
  using assms
proof (cases rule: EOS_cases)
  case empty
  then show ?thesis
    using readDataType_Start_empty [of "afterEmpty r"] by (simp add: afterEmpty_def)
next
  case (short h s)
  then show ?thesis
    by (intro readDataType_WaitAvailable_short) (simp_all add: afterInitialByte_def)
next
  case addl
  then show ?thesis by (intro readDataType_WaitAvailable_short) simp_all
next
  case waiting
  then show ?thesis using assms by simp
qed

lemma EOS_resume:
  assumes "readDataType r = (DataType_kEOS, r1)"
  shows "readDataType (r1\<lparr>in_m := in_m r1 @ t\<rparr>) = readDataType (r\<lparr>in_m := in_m r @ t\<rparr>)"
  using assms
proof (cases rule: EOS_cases)
  case empty
  show ?thesis
  proof (cases t)
    case Nil
    have "r\<lparr>in_m := in_m r @ t\<rparr> = r" "r1\<lparr>in_m := in_m r1 @ t\<rparr> = r1"
      using Nil by simp_all
    moreover have "readDataType r1 = (DataType_kEOS, r1)"
      using assms by (rule EOS_idempotent)
    ultimately show ?thesis using assms by simp
  next
    case (Cons h s)
    have "readDataType (r1\<lparr>in_m := in_m r1 @ t\<rparr>) = readDataType (afterInitialByte h s (r1\<lparr>in_m := in_m r1 @ t\<rparr>))"
      using empty Cons by (intro readDataType_Start_byte) (simp_all add: afterEmpty_def)
    also have "afterInitialByte h s (r1\<lparr>in_m := in_m r1 @ t\<rparr>) = (afterInitialByte h s (r\<lparr>in_m := in_m r @ t\<rparr>))\<lparr>waitAvailable_m := 0\<rparr>"
      using empty by (simp add: afterEmpty_def afterInitialByte_def)
    also have "readDataType \<dots> = readDataType (afterInitialByte h s (r\<lparr>in_m := in_m r @ t\<rparr>))"
      by (rule readDataType_AdditionalInfo_wait_irrelevant) (simp add: afterInitialByte_def)
    also have "\<dots> = readDataType (r\<lparr>in_m := in_m r @ t\<rparr>)"
      using empty Cons by (intro readDataType_Start_byte [symmetric]) simp_all
    finally show ?thesis .
  qed
next
  case (short h s)
  let ?a = "h AND 31"
  have "readDataType (r\<lparr>in_m := in_m r @ t\<rparr>) = readDataType (afterInitialByte h (s @ t) (r\<lparr>in_m := in_m r @ t\<rparr>))"
    using short by (intro readDataType_Start_byte) simp_all
  also have "\<dots> = readDataType ((afterInitialByte h (s @ t) (r\<lparr>in_m := in_m r @ t\<rparr>))
      \<lparr>waitAvailable_m := argWait ?a, state_m := kWaitAvailable\<rparr>)"
    using readDataType_AdditionalInfo_wait [of "afterInitialByte h (s @ t) (r\<lparr>in_m := in_m r @ t\<rparr>)"]
      short(3) argWait_pos [of ?a]
    by (simp add: afterInitialByte_def)
  also have "(afterInitialByte h (s @ t) (r\<lparr>in_m := in_m r @ t\<rparr>))
      \<lparr>waitAvailable_m := argWait ?a, state_m := kWaitAvailable\<rparr> = r1\<lparr>in_m := in_m r1 @ t\<rparr>"
    using short by (simp add: afterInitialByte_def)
  finally show ?thesis by simp
next
  case addl
  have "readDataType (r\<lparr>in_m := in_m r @ t\<rparr>) =
      readDataType (r\<lparr>in_m := in_m r @ t\<rparr>\<lparr>waitAvailable_m := argWait (addlInfo_m r), state_m := kWaitAvailable\<rparr>)"
    using readDataType_AdditionalInfo_wait [of "r\<lparr>in_m := in_m r @ t\<rparr>"] addl by simp
  moreover have "r1\<lparr>in_m := in_m r1 @ t\<rparr> =
      r\<lparr>in_m := in_m r @ t\<rparr>\<lparr>waitAvailable_m := argWait (addlInfo_m r), state_m := kWaitAvailable\<rparr>"
    unfolding addl(4) by (cases r) simp
  ultimately show ?thesis by simp
next
  case waiting
  then show ?thesis by simp
qed

text \<open>
  C6. When the reader is in state Start and the stream cannot supply the bytes of the
  item header, \<^verbatim>\<open>readDataType\<close> returns EOS; if the initial byte was there, the reader
  then waits in state WaitAvailable with the major type, the additional information and
  the pending byte count of that byte; there, as long as fewer bytes are available than
  are pending, a call returns EOS and changes nothing. Whenever a call returns EOS (in
  any state), a call
  on the reader it leaves returns EOS again and changes nothing, and once bytes \<open>t\<close> have
  arrived the next call returns what the first call would have returned, had \<open>t\<close> been in
  the stream from the start.
\<close>

theorem readDataType_short_read:
  "(state_m r = kStart \<and> headerIncomplete (in_m r) \<longrightarrow>
      fst (readDataType r) = DataType_kEOS \<and>
      (\<forall>h s. in_m r = h # s \<longrightarrow>
         state_m (snd (readDataType r)) = kWaitAvailable \<and>
         majorType_m (snd (readDataType r)) = drop_bit 5 h \<and>
         addlInfo_m (snd (readDataType r)) = h AND 31 \<and>
         waitAvailable_m (snd (readDataType r)) = argWait (h AND 31) \<and>
         in_m (snd (readDataType r)) = s)) \<and>
   (state_m r = kWaitAvailable \<and> in_available (in_m r) < waitAvailable_m r \<longrightarrow>
      readDataType r = (DataType_kEOS, r)) \<and>
   (readDataType r = (DataType_kEOS, r1) \<longrightarrow>
      readDataType r1 = (DataType_kEOS, r1) \<and>
      readDataType (r1\<lparr>in_m := in_m r1 @ t\<rparr>) = readDataType (r\<lparr>in_m := in_m r @ t\<rparr>))"
proof (intro conjI impI allI)
  assume a: "state_m r = kStart \<and> headerIncomplete (in_m r)"
  show "fst (readDataType r) = DataType_kEOS"
  proof (cases "in_m r")
    case Nil
    with a show ?thesis by (simp add: readDataType_Start_empty)
  next
    case (Cons h s)
    with a show ?thesis by (simp add: short_header_EOS headerIncomplete_def)
  qed
next
  fix h s
  assume a: "state_m r = kStart \<and> headerIncomplete (in_m r)" and c: "in_m r = h # s"
  then have e: "readDataType r = (DataType_kEOS,
      (afterInitialByte h s r)\<lparr>waitAvailable_m := argWait (h AND 31), state_m := kWaitAvailable\<rparr>)"
    by (simp add: short_header_EOS headerIncomplete_def)
  show "state_m (snd (readDataType r)) = kWaitAvailable"
    "majorType_m (snd (readDataType r)) = drop_bit 5 h"
    "addlInfo_m (snd (readDataType r)) = h AND 31"
    "waitAvailable_m (snd (readDataType r)) = argWait (h AND 31)"
    "in_m (snd (readDataType r)) = s"
    by (simp_all add: e afterInitialByte_def)
next
  assume "state_m r = kWaitAvailable \<and> in_available (in_m r) < waitAvailable_m r"
  then show "readDataType r = (DataType_kEOS, r)"
    by (simp add: readDataType_WaitAvailable_short in_available_def)
next
  assume "readDataType r = (DataType_kEOS, r1)"
  then show "readDataType r1 = (DataType_kEOS, r1)" by (rule EOS_idempotent)
next
  assume "readDataType r = (DataType_kEOS, r1)"
  then show "readDataType (r1\<lparr>in_m := in_m r1 @ t\<rparr>) = readDataType (r\<lparr>in_m := in_m r @ t\<rparr>)"
    by (rule EOS_resume)
qed

theorem readDataType_short_read_witness:
  "state_m (newReader [0x19, 0x01]) = kStart \<and> headerIncomplete (in_m (newReader [0x19, 0x01])) \<and>
   readDataType (newReader [0x19, 0x01]) =
     (DataType_kEOS,
      \<lparr>in_m = [0x01], state_m = kWaitAvailable, initialByte_m = 0x19, majorType_m = 0,
       addlInfo_m = 25, waitAvailable_m = 2, value_m = 0, syntaxError_m = kNoError\<rparr>) \<and>
   readDataType \<lparr>in_m = [0x01], state_m = kWaitAvailable, initialByte_m = 0x19, majorType_m = 0,
       addlInfo_m = 25, waitAvailable_m = 2, value_m = 0, syntaxError_m = kNoError\<rparr> =
     (DataType_kEOS,
      \<lparr>in_m = [0x01], state_m = kWaitAvailable, initialByte_m = 0x19, majorType_m = 0,
       addlInfo_m = 25, waitAvailable_m = 2, value_m = 0, syntaxError_m = kNoError\<rparr>) \<and>
   readDataType \<lparr>in_m = [0x01, 0x02], state_m = kWaitAvailable, initialByte_m = 0x19, majorType_m = 0,
       addlInfo_m = 25, waitAvailable_m = 2, value_m = 0, syntaxError_m = kNoError\<rparr> =
     readDataType (newReader [0x19, 0x01, 0x02]) \<and>
   readDataType (newReader [0x19, 0x01, 0x02]) =
     (DataType_kUnsignedInt,
      \<lparr>in_m = [], state_m = kStart, initialByte_m = 0x19, majorType_m = 0,
       addlInfo_m = 25, waitAvailable_m = 2, value_m = 0x102, syntaxError_m = kNoError\<rparr>)"
  using readDataType_short_read [of "newReader [0x19, 0x01]"
    "\<lparr>in_m = [0x01], state_m = kWaitAvailable, initialByte_m = 0x19, majorType_m = 0,
       addlInfo_m = 25, waitAvailable_m = 2, value_m = 0, syntaxError_m = kNoError\<rparr>" "[0x02]"]
  by (simp add: newReader_def rd_defs majorType_defs headerIncomplete_def argWait_def Let_def)

section \<open>Syntax errors\<close>

text \<open>
  A reader in state AdditionalInfo whose additional information is 28, 29 or 30, or is 31
  with major type 0, 1 or 6, reports the syntax error and stays as it is: every later
  call reports the same error and reads nothing.
\<close>

lemma syntax_error_fixpoint:
  assumes "state_m r = kAdditionalInfo"
    "addlInfo_m r \<in> {28, 29, 30} \<or>
     addlInfo_m r = 31 \<and> majorType_m r \<in> {kUnsignedInt, kNegativeInt, kTag}"
    "readDataType r = (t, r')"
  shows "t = DataType_kSyntaxError \<and> state_m r' = kAdditionalInfo \<and> in_m r' = in_m r \<and>
    readDataType r' = (t, r')"
proof -
  from assms(2) show ?thesis
  proof
    assume a: "addlInfo_m r \<in> {28, 29, 30}"
    let ?r = "r\<lparr>waitAvailable_m := 0, syntaxError_m := kUnknownAdditionalInfo\<rparr>"
    have "readDataType r = (DataType_kSyntaxError, ?r)"
      using assms(1) a by (rule readDataType_AdditionalInfo_unknown)
    moreover have "readDataType ?r = (DataType_kSyntaxError, ?r)"
      using readDataType_AdditionalInfo_unknown [of ?r] assms(1) a by simp
    ultimately show ?thesis using assms(1,3) by auto
  next
    assume a: "addlInfo_m r = 31 \<and> majorType_m r \<in> {kUnsignedInt, kNegativeInt, kTag}"
    let ?r = "r\<lparr>waitAvailable_m := 0, syntaxError_m := kNotAnIndefiniteType\<rparr>"
    have "readDataType r = (DataType_kSyntaxError, ?r)"
      using assms(1) a by (intro readDataType_AdditionalInfo_indefinite) simp_all
    moreover have "readDataType ?r = (DataType_kSyntaxError, ?r)"
      using readDataType_AdditionalInfo_indefinite [of ?r] assms(1) a by simp
    ultimately show ?thesis using assms(1,3) by auto
  qed
qed

text \<open>
  C2. The claim is that after every syntax error the reader is back in state Start. At the
  streams \<open>1C 01\<close> and \<open>1F 01\<close> the call returns the syntax error in state AdditionalInfo
  with the byte \<open>01\<close> unread, and the next call returns the same error and the same
  reader; only after BadSimpleValue (\<open>F8 10 01\<close>) is the reader in state Start, and the
  next call decodes \<open>01\<close>.
\<close>

theorem readDataType_syntax_error_stuck:
  "readDataType (newReader [0x1C, 0x01]) =
     (DataType_kSyntaxError,
      \<lparr>in_m = [0x01], state_m = kAdditionalInfo, initialByte_m = 0x1C, majorType_m = 0,
       addlInfo_m = 28, waitAvailable_m = 0, value_m = 0,
       syntaxError_m = kUnknownAdditionalInfo\<rparr>) \<and>
   readDataType (snd (readDataType (newReader [0x1C, 0x01]))) =
     readDataType (newReader [0x1C, 0x01]) \<and>
   readDataType (newReader [0x1F, 0x01]) =
     (DataType_kSyntaxError,
      \<lparr>in_m = [0x01], state_m = kAdditionalInfo, initialByte_m = 0x1F, majorType_m = 0,
       addlInfo_m = 31, waitAvailable_m = 0, value_m = 0,
       syntaxError_m = kNotAnIndefiniteType\<rparr>) \<and>
   readDataType (snd (readDataType (newReader [0x1F, 0x01]))) =
     readDataType (newReader [0x1F, 0x01]) \<and>
   readDataType (newReader [0xF8, 0x10, 0x01]) =
     (DataType_kSyntaxError,
      \<lparr>in_m = [0x01], state_m = kStart, initialByte_m = 0xF8, majorType_m = 7,
       addlInfo_m = 24, waitAvailable_m = 1, value_m = 16,
       syntaxError_m = kBadSimpleValue\<rparr>) \<and>
   readDataType (snd (readDataType (newReader [0xF8, 0x10, 0x01]))) =
     (DataType_kUnsignedInt,
      \<lparr>in_m = [], state_m = kStart, initialByte_m = 1, majorType_m = 0,
       addlInfo_m = 1, waitAvailable_m = 0, value_m = 1, syntaxError_m = kNoError\<rparr>)"
  by (simp add: newReader_def rd_defs majorType_defs Let_def)

section \<open>Booleans and one-byte simple values\<close>

lemma readDataType_ReadValue_24:
  assumes "state_m r = kReadValue" "addlInfo_m r = 24" "in_m r = b # s" "majorType_m r = kSimpleOrFloat"
  shows "readDataType r =
    (if b < 32 then (DataType_kSyntaxError, r\<lparr>in_m := s, value_m := ucast b, state_m := kStart, syntaxError_m := kBadSimpleValue\<rparr>)
     else (DataType_kSimpleValue, r\<lparr>in_m := s, value_m := ucast b, state_m := kStart\<rparr>))"
  using assms by (simp add: rd_defs Let_def majorType_defs ucast_less_32)

lemma readDataType_one_byte_simple:
  assumes "state_m r = kStart" "in_m r = 0xF8 # s"
  shows "readDataType r =
    (case s of
       [] \<Rightarrow> (DataType_kEOS, (afterInitialByte 0xF8 [] r)\<lparr>waitAvailable_m := 1, state_m := kWaitAvailable\<rparr>)
     | b # s' \<Rightarrow>
         (if b < 32 then
            (DataType_kSyntaxError, (afterInitialByte 0xF8 s' r)\<lparr>waitAvailable_m := 1,
               value_m := ucast b, state_m := kStart, syntaxError_m := kBadSimpleValue\<rparr>)
          else
            (DataType_kSimpleValue, (afterInitialByte 0xF8 s' r)\<lparr>waitAvailable_m := 1,
               value_m := ucast b, state_m := kStart\<rparr>)))"
proof (cases s)
  case Nil
  then show ?thesis
    using short_header_EOS [of r "0xF8" s] assms by (simp add: argWait_def)
next
  case (Cons b s')
  let ?r1 = "afterInitialByte 0xF8 s r"
  let ?r2 = "?r1\<lparr>waitAvailable_m := 1, state_m := kWaitAvailable\<rparr>"
  let ?r3 = "?r2\<lparr>state_m := kReadValue\<rparr>"
  have "readDataType r = readDataType ?r1"
    using assms by (rule readDataType_Start_byte)
  also have "\<dots> = readDataType ?r2"
    using readDataType_AdditionalInfo_wait [of ?r1]
    by (simp add: afterInitialByte_def argWait_def)
  also have "\<dots> = readDataType ?r3"
    by (rule readDataType_WaitAvailable_enough) (simp_all add: afterInitialByte_def Cons)
  also have "\<dots> = (if b < 32 then (DataType_kSyntaxError, ?r3\<lparr>in_m := s', value_m := ucast b, state_m := kStart, syntaxError_m := kBadSimpleValue\<rparr>)
     else (DataType_kSimpleValue, ?r3\<lparr>in_m := s', value_m := ucast b, state_m := kStart\<rparr>))"
    by (rule readDataType_ReadValue_24) (simp_all add: afterInitialByte_def Cons kSimpleOrFloat_def)
  finally show ?thesis by (simp add: Cons afterInitialByte_def)
qed

text \<open>
  C8. \<^verbatim>\<open>getBoolean\<close> is true exactly when the major type is 7 and the additional
  information is 21, or is 24 with argument 21. After a call of \<^verbatim>\<open>readDataType\<close> in state
  Start that is: exactly when the stream began with \<open>F5\<close>, or with \<open>F8 15\<close>; in particular
  it is false after \<open>F4\<close> and after \<open>F8 14\<close>.
\<close>

theorem getBoolean_true_iff:
  "(getBoolean r \<longleftrightarrow>
      majorType_m r = kSimpleOrFloat \<and> (addlInfo_m r = 21 \<or> addlInfo_m r = 24 \<and> value_m r = 21)) \<and>
   (state_m r = kStart \<longrightarrow>
      (getBoolean (snd (readDataType r)) \<longleftrightarrow>
         (\<exists>s. in_m r = 0xF5 # s) \<or> (\<exists>s. in_m r = 0xF8 # 0x15 # s)))"
proof (intro conjI impI)
  show g: "getBoolean r \<longleftrightarrow>
      majorType_m r = kSimpleOrFloat \<and> (addlInfo_m r = 21 \<or> addlInfo_m r = 24 \<and> value_m r = 21)" for r
    by (simp add: getBoolean_def)
  assume st: "state_m r = kStart"
  show "getBoolean (snd (readDataType r)) \<longleftrightarrow>
         (\<exists>s. in_m r = 0xF5 # s) \<or> (\<exists>s. in_m r = 0xF8 # 0x15 # s)"
  proof (cases "in_m r")
    case Nil
    with st show ?thesis
      by (simp add: readDataType_Start_empty g afterEmpty_def kSimpleOrFloat_def)
  next
    case (Cons h s)
    let ?r1 = "afterInitialByte h s r"
    let ?r' = "snd (readDataType r)"
    have e: "readDataType r = readDataType ?r1"
      using st Cons by (rule readDataType_Start_byte)
    have m: "majorType_m ?r' = drop_bit 5 h" and a: "addlInfo_m ?r' = h AND 31"
      using readDataType_keeps [of ?r1] by (simp_all add: e afterInitialByte_def)
    have t: "drop_bit 5 h = 7 \<and> h AND 31 = 21 \<longleftrightarrow> h = 0xF5"
      using byte_split_eq [of h 7 21] by simp
    have f: "drop_bit 5 h = 7 \<and> h AND 31 = 24 \<longleftrightarrow> h = 0xF8"
      using byte_split_eq [of h 7 24] by simp
    show ?thesis
    proof (cases "h = 0xF8")
      case True
      have "h AND 31 \<noteq> 21" using True by simp
      moreover have "value_m ?r' = 21 \<longleftrightarrow> (\<exists>s'. s = 0x15 # s')"
        using readDataType_one_byte_simple [of r s] st Cons True
        by (cases s) (simp_all add: afterInitialByte_def ucast_eq_21)
      ultimately show ?thesis
        using True Cons by (simp add: g m a kSimpleOrFloat_def)
    next
      case False
      with f have "\<not> (drop_bit 5 h = 7 \<and> h AND 31 = 24)" by simp
      then show ?thesis
        using False Cons t by (auto simp add: g m a kSimpleOrFloat_def)
    qed
  qed
qed

theorem getBoolean_true_iff_witness:
  "state_m (newReader [0xF8, 0x15]) = kStart \<and>
   readDataType (newReader [0xF8, 0x15]) =
     (DataType_kSyntaxError,
      \<lparr>in_m = [], state_m = kStart, initialByte_m = 0xF8, majorType_m = 7, addlInfo_m = 24,
       waitAvailable_m = 1, value_m = 21, syntaxError_m = kBadSimpleValue\<rparr>) \<and>
   getBoolean (snd (readDataType (newReader [0xF8, 0x15]))) \<and>
   \<not> getBoolean (snd (readDataType (newReader [0xF8, 0x14]))) \<and>
   getBoolean (snd (readDataType (newReader [0xF5]))) \<and>
   \<not> getBoolean (snd (readDataType (newReader [0xF4])))"
  using getBoolean_true_iff [of "newReader [0xF8, 0x15]"] getBoolean_true_iff [of "newReader [0xF8, 0x14]"]
    getBoolean_true_iff [of "newReader [0xF5]"] getBoolean_true_iff [of "newReader [0xF4]"]
  by (simp add: newReader_def rd_defs majorType_defs Let_def getBoolean_def)

section \<open>The checker on the head of an item\<close>

lemma readHead_Nil: "readHead [] = HeadMalformed []"
  by (simp add: readHead_def in_read_def)

lemma readHead_Cons:
  "readHead (h # s) =
    (case readArgument (drop_bit 5 h) (h AND 31) s of
       ArgMalformed s \<Rightarrow> HeadMalformed s
     | ArgIndefinite \<Rightarrow> HeadIndefinite (drop_bit 5 h) s
     | ArgValue val s \<Rightarrow> HeadDefinite (drop_bit 5 h) val s)"
  by (simp add: readHead_def in_read_def addl_of_int Let_def)

lemma writeSimpleValue_one_byte:
  "\<not> v < 24 \<Longrightarrow> writeSimpleValue v out = out @ [0xF8, v]"
  by (simp add: writeSimpleValue_def out_write_def kSimpleOrFloat_def)

lemma readHead_one_byte_simple:
  "v < 32 \<Longrightarrow> readHead (0xF8 # v # s) = HeadMalformed s"
  by (simp add: readHead_Cons readArgument_def in_read_def kSimpleOrFloat_def ucast_less_32)

lemma read4_Cons:
  "read4 (b3 # b2 # b1 # b0 # s) =
    (push_bit 24 (uint b3) OR push_bit 16 (uint b2) OR push_bit 8 (uint b1) OR uint b0, s)"
  by (simp add: read4_def in_read_def)

lemma readArgument_8:
  "readArgument m 27 (argBytes 8 u @ s) = ArgValue u s"
  by (simp add: readArgument_def argBytes_simps read4_Cons Let_def not_less read8_word)

lemma readHead_map_8:
  "readHead (0xBB # argBytes 8 u @ s) = HeadDefinite kMap u s"
  by (simp add: readHead_Cons readArgument_8 kMap_def)

text \<open>
  C9. For every byte \<open>v\<close> from 24 to 31, \<^verbatim>\<open>writeSimpleValue(v)\<close> emits \<open>F8\<close> and \<open>v\<close>; on
  these two bytes the checker returns \<open>-1\<close> (whatever fuel it has), so the public check is
  false, and the Reader returns the syntax error with kind BadSimpleValue.
\<close>

theorem writeSimpleValue_malformed:
  assumes "24 \<le> v" "v \<le> 31"
  shows "writeSimpleValue v [] = [0xF8, v] \<and>
    isWellFormed (Suc n) False (writeSimpleValue v []) = Some (- 1, []) \<and>
    isWellFormed_top (writeSimpleValue v []) = Some False \<and>
    (state_m r = kStart \<and> in_m r = writeSimpleValue v [] \<longrightarrow>
       fst (readDataType r) = DataType_kSyntaxError \<and>
       getSyntaxError (snd (readDataType r)) = kBadSimpleValue \<and>
       state_m (snd (readDataType r)) = kStart \<and> in_m (snd (readDataType r)) = [])"
proof -
  have v: "\<not> v < 24" "v < 32" using assms by (simp_all add: word_less_nat_alt word_le_nat_alt)
  have w: "writeSimpleValue v [] = [0xF8, v]"
    using v(1) by (simp add: writeSimpleValue_one_byte)
  have c: "isWellFormed (Suc k) False [0xF8, v] = Some (- 1, [])" for k
    using v(2) by (simp add: isWellFormed.simps readHead_one_byte_simple)
  have r: "fst (readDataType r) = DataType_kSyntaxError \<and>
       getSyntaxError (snd (readDataType r)) = kBadSimpleValue \<and>
       state_m (snd (readDataType r)) = kStart \<and> in_m (snd (readDataType r)) = []"
    if "state_m r = kStart" "in_m r = [0xF8, v]"
    using readDataType_one_byte_simple [OF that] v(2)
    by (simp add: getSyntaxError_def afterInitialByte_def)
  have t: "isWellFormed_top [0xF8, v] = Some False"
    using c [of 4] by (simp add: isWellFormed_top_def)
  show ?thesis using c r t by (simp add: w)
qed

theorem writeSimpleValue_malformed_witness:
  "(24 :: u8) \<le> 24 \<and> (24 :: u8) \<le> 31 \<and> writeSimpleValue 24 [] = [0xF8, 0x18] \<and>
   isWellFormed (Suc 0) False [0xF8, 0x18] = Some (- 1, []) \<and>
   readDataType (newReader [0xF8, 0x18]) =
     (DataType_kSyntaxError,
      \<lparr>in_m = [], state_m = kStart, initialByte_m = 0xF8, majorType_m = 7, addlInfo_m = 24,
       waitAvailable_m = 1, value_m = 24, syntaxError_m = kBadSimpleValue\<rparr>)"
  using writeSimpleValue_malformed [of 24 0 "newReader [0xF8, 0x18]"]
  by (simp add: newReader_def rd_defs majorType_defs Let_def writeSimpleValue_def out_write_def
    readHead_one_byte_simple isWellFormed.simps)

section \<open>Fuel\<close>

text \<open>
  The checker consumes the stream: what it leaves is no longer than what it was given,
  and shorter unless the result is \<open>-1\<close>.
\<close>

lemma loopResult_cases:
  assumes "loopResult m r = Some (t, s)"
  obtains "r = Some (True, s)" "t = uint m" | "r = Some (False, s)" "t = - 1"
  using assms by (auto simp: loopResult_def split: option.splits bool.splits)

lemma tagResult_cases:
  assumes "tagResult m r = Some (t, s)"
  obtains "t = uint m" | "t = - 1"
  using assms by (auto simp: tagResult_def split: option.splits if_splits)

lemma in_read_length: "in_read s = (b, s') \<Longrightarrow> length s' \<le> length s"
  by (auto simp: in_read_def split: list.splits)

lemma read4_length: "read4 s = (v, s') \<Longrightarrow> length s' \<le> length s"
  by (auto simp: read4_def Let_def split: prod.splits dest!: in_read_length)

lemma readArgument_length:
  "readArgument m a s = ArgValue val s' \<Longrightarrow> length s' \<le> length s"
  "readArgument m a s = ArgMalformed s' \<Longrightarrow> length s' \<le> length s"
  by (auto simp: readArgument_def Let_def split: if_splits prod.splits
      dest!: in_read_length read4_length)

lemma readHead_length:
  "readHead s = HeadMalformed s' \<Longrightarrow> length s' \<le> length s"
  "readHead s = HeadIndefinite m s' \<Longrightarrow> length s' < length s"
  "readHead s = HeadDefinite m val s' \<Longrightarrow> length s' < length s"
  by (cases s; auto simp: readHead_Nil readHead_Cons split: argument.splits
      dest!: readArgument_length)+

lemma skipBytes_length: "skipBytes i s = (ok, s') \<Longrightarrow> length s' \<le> length s"
proof (induction i arbitrary: s)
  case 0
  then show ?case by simp
next
  case (Suc i)
  then show ?case
    by (cases s) (auto simp: in_read_def split: if_splits dest!: Suc.IH)
qed

lemma loopResult_SomeD:
  "loopResult m x = Some (t, s') \<Longrightarrow> \<exists>ok. x = Some (ok, s')"
  by (erule loopResult_cases) blast+

lemma tagResult_SomeD:
  "tagResult m x = Some (t, s') \<Longrightarrow> \<exists>t'. x = Some (t', s')"
  by (cases x) (auto simp: tagResult_def split: if_splits)

lemma itemsLoop_length:
  assumes W: "\<And>s t s'. isWellFormed n False s = Some (t, s') \<Longrightarrow> length s' \<le> length s"
  shows "itemsLoop n i s = Some (ok, s') \<Longrightarrow> length s' \<le> length s"
proof (induction i arbitrary: s)
  case 0
  then show ?case by simp
next
  case (Suc i)
  then obtain t s1 where c: "isWellFormed n False s = Some (t, s1)"
    by (cases "isWellFormed n False s") auto
  from W [OF c] have l: "length s1 \<le> length s" .
  show ?case
  proof (cases "t < 0")
    case True
    with Suc.prems c l show ?thesis by simp
  next
    case False
    with Suc.prems c have "itemsLoop n i s1 = Some (ok, s')" by simp
    from Suc.IH [OF this] l show ?thesis by simp
  qed
qed

lemma isWellFormed_Suc_length:
  assumes W: "\<And>b s t s'. isWellFormed n b s = Some (t, s') \<Longrightarrow> length s' \<le> length s"
    and S: "\<And>m s ok s'. stringLoop n m s = Some (ok, s') \<Longrightarrow> length s' \<le> length s"
    and A: "\<And>s ok s'. arrayLoop n s = Some (ok, s') \<Longrightarrow> length s' \<le> length s"
    and M: "\<And>s ok s'. mapLoop n s = Some (ok, s') \<Longrightarrow> length s' \<le> length s"
    and r: "isWellFormed (Suc n) b s = Some (t, s')"
  shows "length s' \<le> length s \<and> (t \<noteq> - 1 \<longrightarrow> length s' < length s)"
proof (cases "readHead s")
  case (HeadMalformed s1)
  with r readHead_length(1) [OF HeadMalformed] show ?thesis
    by (simp add: isWellFormed.simps)
next
  case (HeadIndefinite m s0)
  from readHead_length(2) [OF this] have l: "length s0 < length s" .
  from r HeadIndefinite have i: "isIndefiniteWellFormed n m b s0 = Some (t, s')"
    by (simp add: isWellFormed.simps)
  have "length s' \<le> length s0"
    using i
    by (auto simp: isIndefiniteWellFormed.simps split: if_splits
        dest!: loopResult_SomeD dest: S A M)
  with l show ?thesis by simp
next
  case (HeadDefinite m val s1)
  from readHead_length(3) [OF this] have l: "length s1 < length s" .
  have I: "itemsLoop n i s1 = Some (ok, s') \<Longrightarrow> length s' \<le> length s1" for i ok
    by (rule itemsLoop_length [OF W])
  have "length s' \<le> length s1"
    using r HeadDefinite
    by (auto simp: isWellFormed.simps split: if_splits
        dest!: loopResult_SomeD tagResult_SomeD dest: I W skipBytes_length)
  with l show ?thesis by simp
qed

lemma consumed:
  "(\<forall>b s t s'. isWellFormed n b s = Some (t, s') \<longrightarrow>
      length s' \<le> length s \<and> (t \<noteq> - 1 \<longrightarrow> length s' < length s)) \<and>
   (\<forall>m s ok s'. stringLoop n m s = Some (ok, s') \<longrightarrow> length s' \<le> length s) \<and>
   (\<forall>s ok s'. arrayLoop n s = Some (ok, s') \<longrightarrow> length s' \<le> length s) \<and>
   (\<forall>s ok s'. mapLoop n s = Some (ok, s') \<longrightarrow> length s' \<le> length s)"
proof (induction n)
  case 0
  show ?case by (simp add: isWellFormed.simps)
next
  case (Suc n)
  have W: "isWellFormed n b s = Some (t, s') \<Longrightarrow> length s' \<le> length s" for b s t s'
    using Suc.IH by blast
  have S: "stringLoop n m s = Some (ok, s') \<Longrightarrow> length s' \<le> length s" for m s ok s'
    using Suc.IH by blast
  have A: "arrayLoop n s = Some (ok, s') \<Longrightarrow> length s' \<le> length s" for s ok s'
    using Suc.IH by blast
  have M: "mapLoop n s = Some (ok, s') \<Longrightarrow> length s' \<le> length s" for s ok s'
    using Suc.IH by blast
  have 1: "length s' \<le> length s \<and> (t \<noteq> - 1 \<longrightarrow> length s' < length s)"
    if "isWellFormed (Suc n) b s = Some (t, s')" for b s t s'
    using W S A M that by (rule isWellFormed_Suc_length)
  have 2: "length s' \<le> length s" if "stringLoop (Suc n) m s = Some (ok, s')" for m s ok s'
  proof -
    from that obtain t s1 where c: "isWellFormed n True s = Some (t, s1)"
      by (cases "isWellFormed n True s") auto
    from W [OF c] that c show ?thesis
      by (auto split: if_splits dest: S)
  qed
  have 3: "length s' \<le> length s" if "arrayLoop (Suc n) s = Some (ok, s')" for s ok s'
  proof -
    from that obtain t s1 where c: "isWellFormed n True s = Some (t, s1)"
      by (cases "isWellFormed n True s") auto
    from W [OF c] that c show ?thesis
      by (auto split: if_splits dest: A)
  qed
  have 4: "length s' \<le> length s" if "mapLoop (Suc n) s = Some (ok, s')" for s ok s'
  proof -
    from that obtain t s1 where c: "isWellFormed n True s = Some (t, s1)"
      by (cases "isWellFormed n True s") auto
    show ?thesis
    proof (cases "t = - 2 \<or> t = - 1")
      case True
      with W [OF c] that c show ?thesis by auto
    next
      case False
      with that c obtain t2 s2 where c2: "isWellFormed n False s1 = Some (t2, s2)"
        by (cases "isWellFormed n False s1") auto
      from W [OF c] W [OF c2] that c c2 False show ?thesis
        by (auto split: if_splits dest: M)
    qed
  qed
  from 1 2 3 4 show ?case by blast
qed

lemma loopResult_mono:
  assumes "\<And>y. x = Some y \<Longrightarrow> x' = Some y" "loopResult m x = Some r"
  shows "loopResult m x' = Some r"
proof (cases x)
  case None
  with assms(2) show ?thesis by (simp add: loopResult_def)
next
  case (Some y)
  with assms show ?thesis by simp
qed

lemma tagResult_mono:
  assumes "\<And>y. x = Some y \<Longrightarrow> x' = Some y" "tagResult m x = Some r"
  shows "tagResult m x' = Some r"
proof (cases x)
  case None
  with assms(2) show ?thesis by (simp add: tagResult_def)
next
  case (Some y)
  with assms show ?thesis by simp
qed

lemma itemsLoop_mono:
  assumes W: "\<And>s r. isWellFormed n False s = Some r \<Longrightarrow> isWellFormed (Suc n) False s = Some r"
  shows "itemsLoop n i s = Some r \<Longrightarrow> itemsLoop (Suc n) i s = Some r"
proof (induction i arbitrary: s)
  case 0
  then show ?case by simp
next
  case (Suc i)
  then obtain t s1 where c: "isWellFormed n False s = Some (t, s1)"
    by (cases "isWellFormed n False s") auto
  from W [OF c] Suc.prems c Suc.IH [of s1] show ?case
    by (auto split: if_splits)
qed

lemma isIndefiniteWellFormed_mono:
  assumes S: "\<And>m s r. stringLoop n m s = Some r \<Longrightarrow> stringLoop (Suc n) m s = Some r"
    and A: "\<And>s r. arrayLoop n s = Some r \<Longrightarrow> arrayLoop (Suc n) s = Some r"
    and M: "\<And>s r. mapLoop n s = Some r \<Longrightarrow> mapLoop (Suc n) s = Some r"
    and r: "isIndefiniteWellFormed n m b s = Some r"
  shows "isIndefiniteWellFormed (Suc n) m b s = Some r"
proof -
  consider (str) "m = kBytes \<or> m = kText"
    | (arr) "\<not> (m = kBytes \<or> m = kText)" "m = kArray"
    | (map) "\<not> (m = kBytes \<or> m = kText)" "m \<noteq> kArray" "m = kMap"
    | (other) "\<not> (m = kBytes \<or> m = kText)" "m \<noteq> kArray" "m \<noteq> kMap"
    by blast
  then show ?thesis
  proof cases
    case str
    with r have "loopResult m (stringLoop n m s) = Some r"
      by (simp add: isIndefiniteWellFormed.simps)
    then have "loopResult m (stringLoop (Suc n) m s) = Some r"
      by (rule loopResult_mono [rotated]) (rule S)
    with str show ?thesis by (simp add: isIndefiniteWellFormed.simps)
  next
    case arr
    with r have "loopResult m (arrayLoop n s) = Some r"
      by (simp add: isIndefiniteWellFormed.simps)
    then have "loopResult m (arrayLoop (Suc n) s) = Some r"
      by (rule loopResult_mono [rotated]) (rule A)
    with arr show ?thesis by (simp add: isIndefiniteWellFormed.simps)
  next
    case map
    with r have "loopResult m (mapLoop n s) = Some r"
      by (simp add: isIndefiniteWellFormed.simps)
    then have "loopResult m (mapLoop (Suc n) s) = Some r"
      by (rule loopResult_mono [rotated]) (rule M)
    with map show ?thesis by (simp add: isIndefiniteWellFormed.simps)
  next
    case other
    with r show ?thesis by (simp add: isIndefiniteWellFormed.simps)
  qed
qed

lemma isWellFormed_Suc_mono:
  assumes W: "\<And>b s r. isWellFormed n b s = Some r \<Longrightarrow> isWellFormed (Suc n) b s = Some r"
    and S: "\<And>m s r. stringLoop n m s = Some r \<Longrightarrow> stringLoop (Suc n) m s = Some r"
    and A: "\<And>s r. arrayLoop n s = Some r \<Longrightarrow> arrayLoop (Suc n) s = Some r"
    and M: "\<And>s r. mapLoop n s = Some r \<Longrightarrow> mapLoop (Suc n) s = Some r"
    and r: "isWellFormed (Suc n) b s = Some r"
  shows "isWellFormed (Suc (Suc n)) b s = Some r"
proof (cases "readHead s")
  case (HeadMalformed s1)
  with r show ?thesis by (simp add: isWellFormed.simps)
next
  case (HeadIndefinite m s0)
  with r have "isIndefiniteWellFormed n m b s0 = Some r" by (simp add: isWellFormed.simps)
  with S A M have "isIndefiniteWellFormed (Suc n) m b s0 = Some r"
    by (rule isIndefiniteWellFormed_mono)
  with HeadIndefinite show ?thesis by (simp add: isWellFormed.simps)
next
  case (HeadDefinite m val s1)
  have I: "itemsLoop n i s1 = Some y \<Longrightarrow> itemsLoop (Suc n) i s1 = Some y" for i y
    by (rule itemsLoop_mono [OF W])
  consider (str) "m = 2 \<or> m = 3"
    | (map) "\<not> (m = 2 \<or> m = 3)" "m = 5"
    | (arr) "\<not> (m = 2 \<or> m = 3)" "m \<noteq> 5" "m = 4"
    | (tag) "\<not> (m = 2 \<or> m = 3)" "m \<noteq> 5" "m \<noteq> 4" "m = 6"
    | (other) "\<not> (m = 2 \<or> m = 3)" "m \<noteq> 5" "m \<noteq> 4" "m \<noteq> 6"
    by blast
  then show ?thesis
  proof cases
    case str
    with r HeadDefinite show ?thesis by (simp add: isWellFormed.simps)
  next
    case map
    show ?thesis
    proof (cases "val \<noteq> 0 \<and> 2 * val \<le> val")
      case True
      with r HeadDefinite map show ?thesis by (simp add: isWellFormed.simps)
    next
      case False
      with r HeadDefinite map
      have "loopResult m (itemsLoop n (loopCount (push_bit 1 val)) s1) = Some r"
        by (auto simp add: isWellFormed.simps)
      then have "loopResult m (itemsLoop (Suc n) (loopCount (push_bit 1 val)) s1) = Some r"
        by (rule loopResult_mono [rotated]) (rule I)
      with HeadDefinite map False show ?thesis by (auto simp add: isWellFormed.simps)
    qed
  next
    case arr
    with r HeadDefinite have "loopResult m (itemsLoop n (loopCount val) s1) = Some r"
      by (simp add: isWellFormed.simps)
    then have "loopResult m (itemsLoop (Suc n) (loopCount val) s1) = Some r"
      by (rule loopResult_mono [rotated]) (rule I)
    with HeadDefinite arr show ?thesis by (simp add: isWellFormed.simps)
  next
    case tag
    with r HeadDefinite have "tagResult m (isWellFormed n False s1) = Some r"
      by (simp add: isWellFormed.simps)
    then have "tagResult m (isWellFormed (Suc n) False s1) = Some r"
      by (rule tagResult_mono [rotated]) (rule W)
    with HeadDefinite tag show ?thesis by (simp add: isWellFormed.simps)
  next
    case other
    with r HeadDefinite show ?thesis by (simp add: isWellFormed.simps)
  qed
qed

lemma fuel_Suc:
  "(\<forall>b s r. isWellFormed n b s = Some r \<longrightarrow> isWellFormed (Suc n) b s = Some r) \<and>
   (\<forall>m s r. stringLoop n m s = Some r \<longrightarrow> stringLoop (Suc n) m s = Some r) \<and>
   (\<forall>s r. arrayLoop n s = Some r \<longrightarrow> arrayLoop (Suc n) s = Some r) \<and>
   (\<forall>s r. mapLoop n s = Some r \<longrightarrow> mapLoop (Suc n) s = Some r)"
proof (induction n)
  case 0
  show ?case by (simp add: isWellFormed.simps)
next
  case (Suc n)
  have W: "isWellFormed n b s = Some r \<Longrightarrow> isWellFormed (Suc n) b s = Some r" for b s r
    using Suc.IH by blast
  have S: "stringLoop n m s = Some r \<Longrightarrow> stringLoop (Suc n) m s = Some r" for m s r
    using Suc.IH by blast
  have A: "arrayLoop n s = Some r \<Longrightarrow> arrayLoop (Suc n) s = Some r" for s r
    using Suc.IH by blast
  have M: "mapLoop n s = Some r \<Longrightarrow> mapLoop (Suc n) s = Some r" for s r
    using Suc.IH by blast
  have 1: "isWellFormed (Suc (Suc n)) b s = Some r" if "isWellFormed (Suc n) b s = Some r" for b s r
    using W S A M that by (rule isWellFormed_Suc_mono)
  have 2: "stringLoop (Suc (Suc n)) m s = Some r" if "stringLoop (Suc n) m s = Some r" for m s r
  proof -
    from that obtain t s1 where c: "isWellFormed n True s = Some (t, s1)"
      by (cases "isWellFormed n True s") auto
    from W [OF c] that c S [of m s1 r] show ?thesis
      by (auto split: if_splits)
  qed
  have 3: "arrayLoop (Suc (Suc n)) s = Some r" if "arrayLoop (Suc n) s = Some r" for s r
  proof -
    from that obtain t s1 where c: "isWellFormed n True s = Some (t, s1)"
      by (cases "isWellFormed n True s") auto
    from W [OF c] that c A [of s1 r] show ?thesis
      by (auto split: if_splits)
  qed
  have 4: "mapLoop (Suc (Suc n)) s = Some r" if "mapLoop (Suc n) s = Some r" for s r
  proof -
    from that obtain t s1 where c: "isWellFormed n True s = Some (t, s1)"
      by (cases "isWellFormed n True s") auto
    show ?thesis
    proof (cases "t = - 2 \<or> t = - 1")
      case True
      with W [OF c] that c show ?thesis by auto
    next
      case False
      with that c obtain t2 s2 where c2: "isWellFormed n False s1 = Some (t2, s2)"
        by (cases "isWellFormed n False s1") auto
      from W [OF c] W [OF c2] that c c2 False M [of s2 r] show ?thesis
        by (auto split: if_splits)
    qed
  qed
  from 1 2 3 4 show ?case by blast
qed

lemma isWellFormed_fuel_mono:
  assumes "isWellFormed n b s = Some r" "n \<le> n'"
  shows "isWellFormed n' b s = Some r"
  using assms(2,1)
proof (induction rule: dec_induct)
  case base
  then show ?case .
next
  case (step k)
  then show ?case using fuel_Suc [of k] by blast
qed

lemma loopResult_total: "x \<noteq> None \<Longrightarrow> loopResult m x \<noteq> None"
  by (cases x) (auto simp: loopResult_def split: bool.splits)

lemma tagResult_total: "x \<noteq> None \<Longrightarrow> tagResult m x \<noteq> None"
  by (cases x) (auto simp: tagResult_def)

lemma itemsLoop_total:
  assumes W: "\<And>s. 2 * length s + 1 \<le> n \<Longrightarrow> isWellFormed n False s \<noteq> None"
  shows "2 * length s + 1 \<le> n \<Longrightarrow> itemsLoop n i s \<noteq> None"
proof (induction i arbitrary: s)
  case 0
  then show ?case by simp
next
  case (Suc i)
  from W [OF Suc.prems] obtain t s1 where c: "isWellFormed n False s = Some (t, s1)"
    by (cases "isWellFormed n False s") auto
  from consumed [of n] c have "length s1 \<le> length s" by blast
  with Suc.prems have "2 * length s1 + 1 \<le> n" by simp
  from Suc.IH [OF this] c show ?case by (simp del: not_None_eq)
qed

lemma isWellFormed_Suc_total:
  assumes W: "\<And>b s. 2 * length s + 1 \<le> n \<Longrightarrow> isWellFormed n b s \<noteq> None"
    and S: "\<And>m s. 2 * length s + 2 \<le> n \<Longrightarrow> stringLoop n m s \<noteq> None"
    and A: "\<And>s. 2 * length s + 2 \<le> n \<Longrightarrow> arrayLoop n s \<noteq> None"
    and M: "\<And>s. 2 * length s + 2 \<le> n \<Longrightarrow> mapLoop n s \<noteq> None"
    and l: "2 * length s + 1 \<le> Suc n"
  shows "isWellFormed (Suc n) b s \<noteq> None"
proof (cases "readHead s")
  case (HeadMalformed s1)
  then show ?thesis by (simp add: isWellFormed.simps)
next
  case (HeadIndefinite m s0)
  from readHead_length(2) [OF this] l have f: "2 * length s0 + 2 \<le> n" by simp
  have "isIndefiniteWellFormed n m b s0 \<noteq> None"
    using S [OF f, of m] A [OF f] M [OF f]
    by (simp add: isIndefiniteWellFormed.simps loopResult_total del: not_None_eq)
  with HeadIndefinite show ?thesis by (simp add: isWellFormed.simps)
next
  case (HeadDefinite m val s1)
  from readHead_length(3) [OF this] l have f: "2 * length s1 + 1 \<le> n" by simp
  have I: "itemsLoop n i s1 \<noteq> None" for i
    using W f by (rule itemsLoop_total)
  show ?thesis
    using HeadDefinite I W [OF f, of False]
    by (simp add: isWellFormed.simps loopResult_total tagResult_total del: not_None_eq)
qed

lemma enough_fuel:
  "(\<forall>b s. 2 * length s + 1 \<le> n \<longrightarrow> isWellFormed n b s \<noteq> None) \<and>
   (\<forall>m s. 2 * length s + 2 \<le> n \<longrightarrow> stringLoop n m s \<noteq> None) \<and>
   (\<forall>s. 2 * length s + 2 \<le> n \<longrightarrow> arrayLoop n s \<noteq> None) \<and>
   (\<forall>s. 2 * length s + 2 \<le> n \<longrightarrow> mapLoop n s \<noteq> None)"
proof (induction n)
  case 0
  show ?case by simp
next
  case (Suc n)
  have W: "2 * length s + 1 \<le> n \<Longrightarrow> isWellFormed n b s \<noteq> None" for b s
    using Suc.IH by blast
  have S: "2 * length s + 2 \<le> n \<Longrightarrow> stringLoop n m s \<noteq> None" for m s
    using Suc.IH by blast
  have A: "2 * length s + 2 \<le> n \<Longrightarrow> arrayLoop n s \<noteq> None" for s
    using Suc.IH by blast
  have M: "2 * length s + 2 \<le> n \<Longrightarrow> mapLoop n s \<noteq> None" for s
    using Suc.IH by blast
  have C: "isWellFormed n b s = Some (t, s') \<Longrightarrow>
      length s' \<le> length s \<and> (t \<noteq> - 1 \<longrightarrow> length s' < length s)" for b s t s'
    using consumed [of n] by blast
  have 1: "isWellFormed (Suc n) b s \<noteq> None" if "2 * length s + 1 \<le> Suc n" for b s
    using W S A M that by (rule isWellFormed_Suc_total)
  have 2: "stringLoop (Suc n) m s \<noteq> None" if l: "2 * length s + 2 \<le> Suc n" for m s
  proof -
    from l have "2 * length s + 1 \<le> n" by simp
    from W [OF this, of True] obtain t s1 where c: "isWellFormed n True s = Some (t, s1)"
      by (cases "isWellFormed n True s") auto
    show ?thesis
    proof (cases "t = - 1")
      case True
      with c show ?thesis by simp
    next
      case False
      with C [OF c] l have "2 * length s1 + 2 \<le> n" by simp
      from S [OF this, of m] c show ?thesis by (simp del: not_None_eq)
    qed
  qed
  have 3: "arrayLoop (Suc n) s \<noteq> None" if l: "2 * length s + 2 \<le> Suc n" for s
  proof -
    from l have "2 * length s + 1 \<le> n" by simp
    from W [OF this, of True] obtain t s1 where c: "isWellFormed n True s = Some (t, s1)"
      by (cases "isWellFormed n True s") auto
    show ?thesis
    proof (cases "t = - 1")
      case True
      with c show ?thesis by simp
    next
      case False
      with C [OF c] l have "2 * length s1 + 2 \<le> n" by simp
      from A [OF this] c show ?thesis by (simp del: not_None_eq)
    qed
  qed
  have 4: "mapLoop (Suc n) s \<noteq> None" if l: "2 * length s + 2 \<le> Suc n" for s
  proof -
    from l have "2 * length s + 1 \<le> n" by simp
    from W [OF this, of True] obtain t s1 where c: "isWellFormed n True s = Some (t, s1)"
      by (cases "isWellFormed n True s") auto
    show ?thesis
    proof (cases "t = - 1")
      case True
      with c show ?thesis by simp
    next
      case False
      with C [OF c] l have l1: "2 * length s1 + 2 \<le> n" by simp
      then have "2 * length s1 + 1 \<le> n" by simp
      from W [OF this, of False] obtain t2 s2 where c2: "isWellFormed n False s1 = Some (t2, s2)"
        by (cases "isWellFormed n False s1") auto
      from C [OF c2] l1 have "2 * length s2 + 2 \<le> n" by simp
      from M [OF this] c c2 show ?thesis by (simp del: not_None_eq)
    qed
  qed
  from 1 2 3 4 show ?case by blast
qed

text \<open>
  The checker returns on every stream: fuel of twice the length of the stream and one
  is enough, and more fuel does not change the result.
\<close>

lemma isWellFormed_returns:
  "\<exists>t s'. \<forall>n \<ge> 2 * length s + 1. isWellFormed n b s = Some (t, s')"
proof -
  from enough_fuel [of "2 * length s + 1"]
  obtain t s' where "isWellFormed (2 * length s + 1) b s = Some (t, s')" by fastforce
  then have "\<forall>n \<ge> 2 * length s + 1. isWellFormed n b s = Some (t, s')"
    by (blast intro: isWellFormed_fuel_mono)
  then show ?thesis by blast
qed

lemma isWellFormed_top_returns: "\<exists>ok. isWellFormed_top s = Some ok"
proof -
  obtain t s' where "isWellFormed (2 * length s + 1) False s = Some (t, s')"
    using isWellFormed_returns [of s False] by blast
  then show ?thesis by (simp add: isWellFormed_top_def)
qed

section \<open>Maps and the overflow guard\<close>

inductive_cases childItems_SucE: "childItems n (Suc i) s s'"

inductive_cases childItems_0E: "childItems n 0 s s'"

lemma itemsLoop_childItems:
  "itemsLoop n i s = Some (True, s') \<longleftrightarrow> childItems n i s s'"
proof (induction i arbitrary: s)
  case 0
  show ?case by (auto intro: childItems_0 elim: childItems_0E)
next
  case (Suc i)
  show ?case
  proof
    assume a: "itemsLoop n (Suc i) s = Some (True, s')"
    then obtain t s1 where c: "isWellFormed n False s = Some (t, s1)"
      by (cases "isWellFormed n False s") auto
    with a have "0 \<le> t" "itemsLoop n i s1 = Some (True, s')"
      by (simp_all split: if_splits)
    with c Suc show "childItems n (Suc i) s s'"
      by (auto intro: childItems_Suc)
  next
    assume "childItems n (Suc i) s s'"
    then show "itemsLoop n (Suc i) s = Some (True, s')"
      using Suc by (auto elim!: childItems_SucE)
  qed
qed

text \<open>
  C5. For a definite-length Map head with argument \<open>val\<close>, the guard
  \<^verbatim>\<open>val != 0 && 2*val <= val\<close> (the product taken modulo \<open>2 ^ 64\<close>) holds exactly when
  \<open>2 ^ 63 \<le> val\<close>, and then the checker returns \<open>-1\<close> at once, with no item read; so it
  does on the head \<open>BB\<close> with the eight bytes of any \<open>u\<close> from \<open>2 ^ 63\<close> on. Below
  \<open>2 ^ 63\<close> the result is that of the loop over \<open>2 * val\<close> items, and the map is accepted
  exactly when \<open>2 * val\<close> items in a row are accepted (a malformed item among them is the
  other way in which the checker returns \<open>-1\<close>).
\<close>

theorem isWellFormed_map_overflow:
  assumes "readHead s = HeadDefinite kMap val s1"
  shows "(val \<noteq> 0 \<and> 2 * val \<le> val \<longleftrightarrow> 2 ^ 63 \<le> val) \<and>
    (2 ^ 63 \<le> val \<longrightarrow> isWellFormed (Suc n) breakable s = Some (- 1, s1)) \<and>
    (2 ^ 63 \<le> u \<longrightarrow>
       isWellFormed (Suc n) breakable (0xBB # argBytes 8 u @ rest) = Some (- 1, rest)) \<and>
    (val < 2 ^ 63 \<longrightarrow>
       isWellFormed (Suc n) breakable s = loopResult kMap (itemsLoop n (2 * unat val) s1) \<and>
       (isWellFormed (Suc n) breakable s = Some (uint kMap, s') \<longleftrightarrow>
          childItems n (2 * unat val) s1 s'))"
proof (intro conjI impI)
  show "val \<noteq> 0 \<and> 2 * val \<le> val \<longleftrightarrow> 2 ^ 63 \<le> val" by (rule map_guard_iff)
next
  assume "2 ^ 63 \<le> val"
  then have "val \<noteq> 0 \<and> 2 * val \<le> val" by (simp only: map_guard_iff)
  then show "isWellFormed (Suc n) breakable s = Some (- 1, s1)"
    using assms by (simp add: isWellFormed.simps kMap_def)
next
  assume "2 ^ 63 \<le> u"
  then have "u \<noteq> 0 \<and> 2 * u \<le> u" by (simp only: map_guard_iff)
  then show "isWellFormed (Suc n) breakable (0xBB # argBytes 8 u @ rest) = Some (- 1, rest)"
    by (simp add: isWellFormed.simps readHead_map_8 kMap_def)
next
  assume v: "val < 2 ^ 63"
  then have "(val \<noteq> 0 \<and> 2 * val \<le> val) = False" by (simp add: map_guard_iff not_le)
  then show e: "isWellFormed (Suc n) breakable s = loopResult kMap (itemsLoop n (2 * unat val) s1)"
    using assms v by (auto simp add: isWellFormed.simps kMap_def loopCount_eq unat_double)
  have "loopResult kMap r = Some (uint kMap, s') \<longleftrightarrow> r = Some (True, s')" for r
    by (auto simp: loopResult_def kMap_def split: option.splits bool.splits)
  then show "isWellFormed (Suc n) breakable s = Some (uint kMap, s') \<longleftrightarrow>
      childItems n (2 * unat val) s1 s'"
    unfolding e by (simp add: itemsLoop_childItems)
qed

theorem isWellFormed_map_overflow_witness:
  "readHead [0xBB, 0x80, 0, 0, 0, 0, 0, 0, 0, 0x01] = HeadDefinite kMap (2 ^ 63) [0x01] \<and>
   isWellFormed (Suc 0) False [0xBB, 0x80, 0, 0, 0, 0, 0, 0, 0, 0x01] = Some (- 1, [0x01]) \<and>
   readHead [0xA1, 0x01, 0x02] = HeadDefinite kMap 1 [0x01, 0x02] \<and>
   isWellFormed (Suc (Suc 0)) False [0xA1, 0x01, 0x02] = Some (5, []) \<and>
   childItems (Suc 0) 2 [0x01, 0x02] []"
proof -
  have h1: "readHead [0xBB, 0x80, 0, 0, 0, 0, 0, 0, 0, 0x01] = HeadDefinite kMap (2 ^ 63) [0x01]"
    by code_simp
  have h2: "readHead [0xA1, 0x01, 0x02] = HeadDefinite kMap 1 [0x01, 0x02]"
    by code_simp
  have e: "isWellFormed (Suc (Suc 0)) False [0xA1, 0x01, 0x02] = Some (uint kMap, [])"
    by code_simp
  have a: "isWellFormed (Suc 0) False [0xBB, 0x80, 0, 0, 0, 0, 0, 0, 0, 0x01] = Some (- 1, [0x01])"
    using isWellFormed_map_overflow [OF h1, of 0 False 0] by simp
  have b: "childItems (Suc 0) 2 [0x01, 0x02] []"
    using isWellFormed_map_overflow [OF h2, of "Suc 0" False 0 "[]" "[]"] e by simp
  show ?thesis using h1 h2 e a b by (simp add: kMap_def)
qed

section \<open>Strings of indefinite length\<close>

lemma readArgument_Indefinite:
  "readArgument m a s = ArgIndefinite \<longleftrightarrow> a = 31"
  by (auto simp: readArgument_def Let_def split: prod.splits)

lemma readHead_IndefiniteD:
  assumes "readHead s = HeadIndefinite m s0"
  obtains h where "s = h # s0" "drop_bit 5 h = m" "h AND 31 = 31"
proof (cases s)
  case Nil
  with assms show ?thesis by (simp add: readHead_Nil)
next
  case (Cons h s1)
  with assms have "readArgument (drop_bit 5 h) (h AND 31) s1 = ArgIndefinite \<and> m = drop_bit 5 h \<and> s0 = s1"
    by (auto simp: readHead_Cons split: argument.splits)
  with Cons that show ?thesis by (simp add: readArgument_Indefinite)
qed

lemma readHead_DefiniteD:
  assumes "readHead s = HeadDefinite m val s1"
  obtains h s0 where "s = h # s0" "drop_bit 5 h = m"
proof (cases s)
  case Nil
  with assms show ?thesis by (simp add: readHead_Nil)
next
  case (Cons h s0)
  with assms have "m = drop_bit 5 h"
    by (auto simp: readHead_Cons split: argument.splits)
  with Cons that show ?thesis by simp
qed

lemma isIndefiniteWellFormed_result:
  assumes "isIndefiniteWellFormed n m b s = Some (t, s')"
  shows "t = uint m \<or> t = - 1 \<or> (t = - 2 \<and> m = kSimpleOrFloat \<and> b \<and> s' = s)"
  using assms
  by (auto simp: isIndefiniteWellFormed.simps majorType_defs split: if_splits elim!: loopResult_cases)

text \<open>
  A result of the checker is \<open>-1\<close>, or the major type of the initial byte, or \<open>-2\<close> for the
  break byte where a break is allowed.
\<close>

lemma isWellFormed_result:
  assumes "isWellFormed n b s = Some (t, s')"
  shows "t = - 1 \<or> (\<exists>h s0. s = h # s0 \<and> (t = uint (drop_bit 5 h) \<or> t = - 2 \<and> h = 0xFF \<and> b \<and> s' = s0))"
proof (cases n)
  case 0
  with assms show ?thesis by (simp add: isWellFormed.simps)
next
  case (Suc k)
  show ?thesis
  proof (cases "readHead s")
    case (HeadMalformed s1)
    with assms Suc show ?thesis by (simp add: isWellFormed.simps)
  next
    case (HeadIndefinite m s0)
    then obtain h where h: "s = h # s0" "drop_bit 5 h = m" "h AND 31 = 31"
      by (rule readHead_IndefiniteD)
    have "isIndefiniteWellFormed k m b s0 = Some (t, s')"
      using assms Suc HeadIndefinite by (simp add: isWellFormed.simps)
    from isIndefiniteWellFormed_result [OF this] show ?thesis
    proof (elim disjE conjE)
      assume "t = - 2" "m = kSimpleOrFloat" b "s' = s0"
      moreover have "h = 0xFF"
        using byte_split_eq [of h 7 31] h \<open>m = kSimpleOrFloat\<close> by (simp add: kSimpleOrFloat_def)
      ultimately show ?thesis using h by simp
    qed (use h in auto)
  next
    case (HeadDefinite m val s1)
    then obtain h s0 where h: "s = h # s0" "drop_bit 5 h = m"
      by (rule readHead_DefiniteD)
    have "t = uint m \<or> t = - 1"
      using assms Suc HeadDefinite
      by (auto simp: isWellFormed.simps split: if_splits elim!: loopResult_cases tagResult_cases)
    with h show ?thesis by auto
  qed
qed

lemma uint_u8_nonneg: "uint (m :: u8) \<noteq> - 1" "uint (m :: u8) \<noteq> - 2"
  using uint_ge_0 [of m] by linarith+

lemma stringLoop_chunks:
  "stringLoop n m s = Some (True, s') \<Longrightarrow> stringChunks m s s'"
proof (induction n arbitrary: s)
  case 0
  then show ?case by simp
next
  case (Suc n)
  from Suc.prems obtain t s1 where c: "isWellFormed n True s = Some (t, s1)"
    by (cases "isWellFormed n True s") auto
  show ?case
  proof (cases "t = - 2")
    case True
    with Suc.prems c have e: "s' = s1" by simp
    from isWellFormed_result [OF c] True have "s = 0xFF # s1"
      by (auto simp: uint_u8_nonneg)
    with e show ?thesis by (simp add: stringChunks_break)
  next
    case False
    with Suc.prems c have t: "t = uint m" and l: "stringLoop n m s1 = Some (True, s')"
      by (simp_all split: if_splits)
    from isWellFormed_result [OF c] t False obtain h s0 where h: "s = h # s0" "uint m = uint (drop_bit 5 h)"
      by (auto simp: uint_u8_nonneg)
    then have "drop_bit 5 h = m" by (simp add: word_uint_eq_iff)
    with c t h(1) Suc.IH [OF l] show ?thesis
      by (auto intro: stringChunks_chunk)
  qed
qed

text \<open>
  C3, as the code has it. When the checker does not reject a Bytes or Text item of
  indefinite length, it returns the major type, and what followed the initial byte is a
  sequence of items, each accepted by the checker and each of the outer major type, and
  then the break byte. That the items are of definite length is not checked.
\<close>

theorem isWellFormed_indefinite_string:
  assumes "readHead s = HeadIndefinite majorType s0" "majorType = kBytes \<or> majorType = kText"
    "isWellFormed n breakable s = Some (t, s')" "t \<noteq> - 1"
  shows "t = uint majorType \<and> stringChunks majorType s0 s'"
proof (cases n)
  case 0
  with assms show ?thesis by (simp add: isWellFormed.simps)
next
  case (Suc k)
  with assms have "loopResult majorType (stringLoop k majorType s0) = Some (t, s')"
    by (auto simp: isWellFormed.simps isIndefiniteWellFormed.simps)
  then show ?thesis using assms(4)
    by (auto elim!: loopResult_cases intro: stringLoop_chunks)
qed

theorem isWellFormed_indefinite_string_witness:
  "readHead [0x5F, 0x41, 0x00, 0xFF] = HeadIndefinite kBytes [0x41, 0x00, 0xFF] \<and>
   isWellFormed 4 False [0x5F, 0x41, 0x00, 0xFF] = Some (2, []) \<and>
   stringChunks kBytes [0x41, 0x00, 0xFF] []"
proof -
  have h: "readHead [0x5F, 0x41, 0x00, 0xFF] = HeadIndefinite kBytes [0x41, 0x00, 0xFF]"
    by code_simp
  have e: "isWellFormed 4 False [0x5F, 0x41, 0x00, 0xFF] = Some (2, [])"
    by code_simp
  have "stringChunks kBytes [0x41, 0x00, 0xFF] []"
    using isWellFormed_indefinite_string [OF h _ e] by simp
  with h e show ?thesis by simp
qed

text \<open>
  C3, as it is claimed: a nested item of indefinite length makes the string malformed.
  The string \<open>5F 5F 41 00 FF FF\<close> has the chunk \<open>5F 41 00 FF\<close>, itself of indefinite
  length, and the checker accepts it.
\<close>

theorem nested_indefinite_string_accepted:
  "readHead [0x5F, 0x5F, 0x41, 0x00, 0xFF, 0xFF] = HeadIndefinite kBytes [0x5F, 0x41, 0x00, 0xFF, 0xFF] \<and>
   readHead [0x5F, 0x41, 0x00, 0xFF, 0xFF] = HeadIndefinite kBytes [0x41, 0x00, 0xFF, 0xFF] \<and>
   isWellFormed 6 False [0x5F, 0x5F, 0x41, 0x00, 0xFF, 0xFF] = Some (2, []) \<and>
   isWellFormed_top [0x5F, 0x5F, 0x41, 0x00, 0xFF, 0xFF] = Some True"
  by code_simp

section \<open>Integers, written and read back\<close>

lemma writeInt_cases:
  "writeInt i out =
    (if 0 \<le> sint i then writeTypedInt (push_bit 5 kUnsignedInt) i out
     else writeTypedInt (push_bit 5 kNegativeInt) (- 1 - i) out)"
proof -
  have "NOT i = - 1 - i" by (simp add: not_eq_complement)
  then show ?thesis
    by (simp add: writeInt_def sign_mask majorType_defs Let_def)
qed

lemma read_as_Cons: "read_as (b # s) = (ucast b, s)"
  by (simp add: read_as_def in_read_def)

lemma argFits_less:
  "argFits 1 u \<Longrightarrow> u < 2 ^ 8" "argFits 2 u \<Longrightarrow> u < 2 ^ 16" "argFits 4 u \<Longrightarrow> u < 2 ^ 32"
  by (simp_all add: argFits_def word_less_nat_alt)

lemma readDataType_arg_8:
  assumes "state_m r = kAdditionalInfo" "majorType_m r = kUnsignedInt \<or> majorType_m r = kNegativeInt"
    "addlInfo_m r = 27" "in_m r = argBytes 8 u @ s"
  shows "readDataType r = (intDataType (majorType_m r),
    r\<lparr>in_m := s, waitAvailable_m := 8, value_m := u, state_m := kStart\<rparr>)"
  using assms(2)
  by (elim disjE; simp add: assms(1,3,4) rd_defs argBytes_simps Let_def be8 intDataType_def majorType_defs)

lemma readDataType_arg_4:
  assumes "state_m r = kAdditionalInfo" "majorType_m r = kUnsignedInt \<or> majorType_m r = kNegativeInt"
    "addlInfo_m r = 26" "in_m r = argBytes 4 u @ s" "argFits 4 u"
  shows "readDataType r = (intDataType (majorType_m r),
    r\<lparr>in_m := s, waitAvailable_m := 4, value_m := u, state_m := kStart\<rparr>)"
  using assms(2) argFits_less(3) [OF assms(5)]
  by (elim disjE; simp add: assms(1,3,4) rd_defs argBytes_simps Let_def be4 intDataType_def majorType_defs)

lemma readDataType_arg_2:
  assumes "state_m r = kAdditionalInfo" "majorType_m r = kUnsignedInt \<or> majorType_m r = kNegativeInt"
    "addlInfo_m r = 25" "in_m r = argBytes 2 u @ s" "argFits 2 u"
  shows "readDataType r = (intDataType (majorType_m r),
    r\<lparr>in_m := s, waitAvailable_m := 2, value_m := u, state_m := kStart\<rparr>)"
  using assms(2) argFits_less(2) [OF assms(5)]
  by (elim disjE; simp add: assms(1,3,4) rd_defs argBytes_simps Let_def be2 intDataType_def majorType_defs)

lemma readDataType_arg_1:
  assumes "state_m r = kAdditionalInfo" "majorType_m r = kUnsignedInt \<or> majorType_m r = kNegativeInt"
    "addlInfo_m r = 24" "in_m r = argBytes 1 u @ s" "argFits 1 u"
  shows "readDataType r = (intDataType (majorType_m r),
    r\<lparr>in_m := s, waitAvailable_m := 1, value_m := u, state_m := kStart\<rparr>)"
  using assms(2) argFits_less(1) [OF assms(5)]
  by (elim disjE; simp add: assms(1,3,4) rd_defs argBytes_simps Let_def be1 intDataType_def majorType_defs)

lemma readDataType_arg_0:
  assumes "state_m r = kAdditionalInfo" "majorType_m r = kUnsignedInt \<or> majorType_m r = kNegativeInt"
    "addlInfo_m r = ucast u" "in_m r = s" "argFits 0 u"
  shows "readDataType r = (intDataType (majorType_m r),
    r\<lparr>in_m := s, waitAvailable_m := 0, value_m := u, state_m := kStart\<rparr>)"
proof -
  have u: "unat u < 24" using assms(5) by (simp add: argFits_def)
  then have "u < 2 ^ 8" by (simp add: word_less_nat_alt)
  then have e: "ucast (ucast u :: u8) = u" by (rule be1)
  have "unat (ucast u :: u8) = unat u"
    using u by (simp add: unsigned_ucast_eq take_bit_nat_eq_self)
  with u have "(ucast u :: u8) < 24" by (simp add: word_less_nat_alt)
  then have n: "(ucast u :: u8) \<notin> {24, 25, 26, 27, 28, 29, 30, 31}" by auto
  let ?r = "r\<lparr>waitAvailable_m := 0, state_m := kReadValue\<rparr>"
  have "readDataType r = readDataType ?r"
    using assms(1,3) n by (intro readDataType_AdditionalInfo_value) auto
  also have "\<dots> = (intDataType (majorType_m r),
    r\<lparr>in_m := s, waitAvailable_m := 0, value_m := u, state_m := kStart\<rparr>)"
    using assms(2) n
    by (elim disjE; simp add: assms(3,4) rd_defs Let_def e intDataType_def majorType_defs)
  finally show ?thesis .
qed

lemma readDataType_writeTypedInt:
  assumes "state_m r = kStart" "m = kUnsignedInt \<or> m = kNegativeInt"
    "in_m r = writeTypedInt (push_bit 5 m) u [] @ s"
  shows "fst (readDataType r) = intDataType m \<and> value_m (snd (readDataType r)) = u \<and>
    majorType_m (snd (readDataType r)) = m \<and> in_m (snd (readDataType r)) = s \<and>
    state_m (snd (readDataType r)) = kStart \<and> syntaxError_m (snd (readDataType r)) = kNoError"
proof -
  have m8: "m < 8" using assms(2) by (auto simp: majorType_defs)
  define w :: nat where "w = (if unat u < 24 then 0 else if unat u < 256 then 1
    else if unat u < 65536 then 2 else if unat u < 4294967296 then 4 else 8)"
  have w: "w \<in> {0, 1, 2, 4, 8}" by (simp add: w_def)
  have "unat u < 2 ^ 64" using unsigned_less [of u] by simp
  then have f: "argFits w u" by (simp add: w_def argFits_def)
  have c32: "argCode w u < 32"
  proof (cases "w = 0")
    case True
    then have u: "unat u < 24" by (simp add: w_def split: if_splits)
    then have "unat (ucast u :: u8) = unat u"
      by (simp add: unsigned_ucast_eq take_bit_nat_eq_self)
    with u True show ?thesis by (simp add: argCode_def word_less_nat_alt)
  next
    case False
    then show ?thesis by (simp add: argCode_def)
  qed
  define h where "h = push_bit 5 m + argCode w u"
  have i: "in_m r = h # argBytes w u @ s"
    using assms(3) by (simp add: writeTypedInt_cases w_def h_def argCode_def argBytes_simps)
  let ?r1 = "afterInitialByte h (argBytes w u @ s) r"
  have e: "readDataType r = readDataType ?r1"
    using assms(1) i by (rule readDataType_Start_byte)
  have hb: "drop_bit 5 h = m" "h AND 31 = argCode w u"
    using head_byte [OF c32 m8] by (simp_all add: h_def)
  have r1: "state_m ?r1 = kAdditionalInfo" "majorType_m ?r1 = kUnsignedInt \<or> majorType_m ?r1 = kNegativeInt"
    "addlInfo_m ?r1 = argCode w u" "in_m ?r1 = argBytes w u @ s" "majorType_m ?r1 = m"
    "syntaxError_m ?r1 = kNoError"
    using assms(2) hb by (simp_all add: afterInitialByte_def)
  have "readDataType ?r1 = (intDataType m,
      ?r1\<lparr>in_m := s, waitAvailable_m := int w, value_m := u, state_m := kStart\<rparr>)"
    using w
  proof (elim insertE emptyE)
    assume "w = 0"
    then show ?thesis
      using readDataType_arg_0 [of ?r1 u s] r1 f by (simp add: argCode_def argBytes_simps)
  next
    assume "w = 1"
    then show ?thesis
      using readDataType_arg_1 [of ?r1 u s] r1 f by (simp add: argCode_def)
  next
    assume "w = 2"
    then show ?thesis
      using readDataType_arg_2 [of ?r1 u s] r1 f by (simp add: argCode_def)
  next
    assume "w = 4"
    then show ?thesis
      using readDataType_arg_4 [of ?r1 u s] r1 f by (simp add: argCode_def)
  next
    assume "w = 8"
    then show ?thesis
      using readDataType_arg_8 [of ?r1 u s] r1 f by (simp add: argCode_def)
  qed
  with e r1 show ?thesis by simp
qed

text \<open>
  C1. For every 64-bit \<open>i\<close>, read as a signed integer, a reader in state Start on the
  bytes of \<^verbatim>\<open>writeInt(i)\<close> returns UnsignedInt with argument \<open>i\<close> when \<open>i\<close> is not negative,
  and NegativeInt with argument \<open>-1 - i\<close> when it is, and then \<^verbatim>\<open>getInt\<close> returns \<open>i\<close>; the
  bytes are consumed and the reader is in state Start again. The sign mask and the XOR
  of \<^verbatim>\<open>writeInt\<close> amount to the case distinction on the sign.
\<close>

theorem writeInt_round_trip:
  assumes "state_m r = kStart" "in_m r = writeInt i [] @ s"
  shows "(0 \<le> sint i \<longrightarrow>
      fst (readDataType r) = DataType_kUnsignedInt \<and>
      value_m (snd (readDataType r)) = i \<and> getUnsignedInt (snd (readDataType r)) = i) \<and>
    (sint i < 0 \<longrightarrow>
      fst (readDataType r) = DataType_kNegativeInt \<and>
      uint (value_m (snd (readDataType r))) = - 1 - sint i \<and>
      sint (getInt (snd (readDataType r))) = sint i) \<and>
    in_m (snd (readDataType r)) = s \<and> state_m (snd (readDataType r)) = kStart \<and>
    writeInt i out =
      (if 0 \<le> sint i then writeTypedInt (push_bit 5 kUnsignedInt) i out
       else writeTypedInt (push_bit 5 kNegativeInt) (- 1 - i) out)"
proof (cases "0 \<le> sint i")
  case True
  then have "in_m r = writeTypedInt (push_bit 5 kUnsignedInt) i [] @ s"
    using assms(2) by (simp add: writeInt_cases)
  from readDataType_writeTypedInt [OF assms(1) _ this] True show ?thesis
    by (simp add: intDataType_def getUnsignedInt_def writeInt_cases)
next
  case False
  then have "in_m r = writeTypedInt (push_bit 5 kNegativeInt) (- 1 - i) [] @ s"
    using assms(2) by (simp add: writeInt_cases)
  from readDataType_writeTypedInt [OF assms(1) _ this] False show ?thesis
    by (simp add: intDataType_def getInt_def writeInt_cases uint_complement majorType_defs)
qed

theorem writeInt_round_trip_witness:
  "state_m (newReader [0x20]) = kStart \<and> in_m (newReader [0x20]) = writeInt (- 1) [] @ [] \<and>
   sint (- 1 :: u64) < 0 \<and>
   readDataType (newReader [0x20]) =
     (DataType_kNegativeInt,
      \<lparr>in_m = [], state_m = kStart, initialByte_m = 0x20, majorType_m = 1, addlInfo_m = 0,
       waitAvailable_m = 0, value_m = 0, syntaxError_m = kNoError\<rparr>) \<and>
   sint (getInt (snd (readDataType (newReader [0x20])))) = - 1 \<and>
   writeInt 1000000 [] = [0x1A, 0x00, 0x0F, 0x42, 0x40] \<and>
   fst (readDataType (newReader (writeInt 1000000 []))) = DataType_kUnsignedInt \<and>
   value_m (snd (readDataType (newReader (writeInt 1000000 [])))) = 1000000"
proof -
  have a: "writeInt (- 1) [] = [0x20]"
    by (simp add: writeInt_cases writeTypedInt_cases majorType_defs)
  have b: "writeInt 1000000 [] = [0x1A, 0x00, 0x0F, 0x42, 0x40]"
    by (simp add: writeInt_cases writeTypedInt_cases majorType_defs argBytes_simps)
  have c: "readDataType (newReader [0x20]) =
     (DataType_kNegativeInt,
      \<lparr>in_m = [], state_m = kStart, initialByte_m = 0x20, majorType_m = 1, addlInfo_m = 0,
       waitAvailable_m = 0, value_m = 0, syntaxError_m = kNoError\<rparr>)"
    by (simp add: newReader_def rd_defs majorType_defs Let_def)
  show ?thesis
    using writeInt_round_trip [of "newReader [0x20]" "- 1" "[]"]
      writeInt_round_trip [of "newReader (writeInt 1000000 [])" 1000000 "[]"]
    by (simp add: a b c) (simp add: newReader_def)
qed

section \<open>Floating-point accessors\<close>

lemma readDataType_half:
  assumes "state_m r = kStart" "in_m r = 0xF9 # hi # lo # s"
  shows "readDataType r = (DataType_kFloat,
    (afterInitialByte 0xF9 s r)\<lparr>waitAvailable_m := 2,
      value_m := ucast (push_bit 8 (ucast (ucast hi :: u16) :: u32) OR ucast (ucast lo :: u16)),
      state_m := kStart\<rparr>)"
  using assms by (simp add: rd_defs Let_def afterInitialByte_def majorType_defs)

text \<open>
  C7. With major type 7 and additional information 25, and the low 16 bits of the
  argument being \<open>s * 2 ^ 15 + e * 2 ^ 10 + m\<close> (sign bit \<open>s\<close>, five exponent bits \<open>e\<close>, ten
  mantissa bits \<open>m\<close>), \<^verbatim>\<open>getDouble\<close> returns \<open>ldexp(m, -24)\<close> for \<open>e = 0\<close>,
  \<open>ldexp(m + 1024, e - 25)\<close> for \<open>0 < e < 31\<close>, infinity for \<open>e = 31\<close> and \<open>m = 0\<close>, NaN for
  \<open>e = 31\<close> and \<open>m \<noteq> 0\<close>, with the sign put on by \<^verbatim>\<open>copysign\<close>. That is the state in which
  the reader is after the bytes \<open>F9 hi lo\<close>, the 16 bits being \<open>hi * 2 ^ 8 + lo\<close>; after
  \<open>F9 3C 00\<close> the value is exactly 1.
\<close>

theorem getDouble_half_precision:
  "(majorType_m r = kSimpleOrFloat \<and> addlInfo_m r = 25 \<and>
    unat (ucast (value_m r) :: u16) = s * 2 ^ 15 + e * 2 ^ 10 + m \<and> s < 2 \<and> e < 32 \<and> m < 1024 \<longrightarrow>
      getDouble r =
        copysign
          (if e = 0 then ldexp (int m) (- 24)
           else if e < 31 then ldexp (int m + 1024) (int e - 25)
           else if m = 0 then INFINITY else NAN)
          (double_of_int (if s = 1 then - 1 else 1))) \<and>
   (state_m r0 = kStart \<and> in_m r0 = 0xF9 # hi # lo # rest \<longrightarrow>
      fst (readDataType r0) = DataType_kFloat \<and>
      majorType_m (snd (readDataType r0)) = kSimpleOrFloat \<and>
      addlInfo_m (snd (readDataType r0)) = 25 \<and>
      unat (ucast (value_m (snd (readDataType r0))) :: u16) = unat hi * 2 ^ 8 + unat lo \<and>
      in_m (snd (readDataType r0)) = rest) \<and>
   (state_m r1 = kStart \<and> in_m r1 = [0xF9, 0x3C, 0x00] \<longrightarrow>
      getDouble (snd (readDataType r1)) = Finite False 1)"
proof (intro conjI impI)
  assume a: "majorType_m r = kSimpleOrFloat \<and> addlInfo_m r = 25 \<and>
    unat (ucast (value_m r) :: u16) = s * 2 ^ 15 + e * 2 ^ 10 + m \<and> s < 2 \<and> e < 32 \<and> m < 1024"
  then have f: "uint (drop_bit 10 (ucast (value_m r) :: u16) AND 31) = int e"
    "uint ((ucast (value_m r) :: u16) AND 1023) = int m"
    "(ucast (value_m r) :: u16) AND 32768 \<noteq> 0 \<longleftrightarrow> s = 1"
    using half_fields [of "ucast (value_m r)" s e m] by simp_all
  show "getDouble r =
        copysign
          (if e = 0 then ldexp (int m) (- 24)
           else if e < 31 then ldexp (int m + 1024) (int e - 25)
           else if m = 0 then INFINITY else NAN)
          (double_of_int (if s = 1 then - 1 else 1))"
    using a by (auto simp add: getDouble_def Let_def f)
next
  assume a: "state_m r0 = kStart \<and> in_m r0 = 0xF9 # hi # lo # rest"
  then have e: "readDataType r0 = (DataType_kFloat,
    (afterInitialByte 0xF9 rest r0)\<lparr>waitAvailable_m := 2,
      value_m := ucast (push_bit 8 (ucast (ucast hi :: u16) :: u32) OR ucast (ucast lo :: u16)),
      state_m := kStart\<rparr>)"
    by (simp add: readDataType_half)
  show "fst (readDataType r0) = DataType_kFloat"
    "majorType_m (snd (readDataType r0)) = kSimpleOrFloat"
    "addlInfo_m (snd (readDataType r0)) = 25"
    "in_m (snd (readDataType r0)) = rest"
    by (simp_all add: e afterInitialByte_def majorType_defs)
  show "unat (ucast (value_m (snd (readDataType r0))) :: u16) = unat hi * 2 ^ 8 + unat lo"
    unfolding e using unat_half_payload [of hi lo] by simp
next
  assume a: "state_m r1 = kStart \<and> in_m r1 = [0xF9, 0x3C, 0x00]"
  then have "readDataType r1 = (DataType_kFloat,
    (afterInitialByte 0xF9 [] r1)\<lparr>waitAvailable_m := 2, value_m := 0x3C00, state_m := kStart\<rparr>)"
    by (simp add: readDataType_half)
  then show "getDouble (snd (readDataType r1)) = Finite False 1"
    by (simp add: getDouble_def afterInitialByte_def majorType_defs Let_def ldexp_def
        double_of_int_def)
qed

theorem getDouble_half_precision_witness:
  "majorType_m \<lparr>in_m = [], state_m = kStart, initialByte_m = 0xF9, majorType_m = 7,
      addlInfo_m = 25, waitAvailable_m = 2, value_m = 0xC400, syntaxError_m = kNoError\<rparr> =
     kSimpleOrFloat \<and>
   unat (ucast (0xC400 :: u64) :: u16) = 1 * 2 ^ 15 + 17 * 2 ^ 10 + 0 \<and>
   getDouble \<lparr>in_m = [], state_m = kStart, initialByte_m = 0xF9, majorType_m = 7,
      addlInfo_m = 25, waitAvailable_m = 2, value_m = 0xC400, syntaxError_m = kNoError\<rparr> =
     Finite True 4 \<and>
   readDataType (newReader [0xF9, 0xC4, 0x00]) =
     (DataType_kFloat,
      \<lparr>in_m = [], state_m = kStart, initialByte_m = 0xF9, majorType_m = 7,
       addlInfo_m = 25, waitAvailable_m = 2, value_m = 0xC400, syntaxError_m = kNoError\<rparr>) \<and>
   getDouble (snd (readDataType (newReader [0xF9, 0x3C, 0x00]))) = Finite False 1"
  using getDouble_half_precision [of
      "\<lparr>in_m = [], state_m = kStart, initialByte_m = 0xF9, majorType_m = 7,
        addlInfo_m = 25, waitAvailable_m = 2, value_m = 0xC400, syntaxError_m = kNoError\<rparr>"
      1 17 0 "newReader [0xF9, 0xC4, 0x00]" "0xC4" "0x00" "[]" "newReader [0xF9, 0x3C, 0x00]"]
  by (simp add: newReader_def kSimpleOrFloat_def ldexp_def double_of_int_def rd_defs Let_def
      majorType_defs)

lemma getDouble_zero:
  "majorType_m r \<noteq> kSimpleOrFloat \<or> addlInfo_m r \<notin> {25, 26, 27} \<Longrightarrow>
    getDouble r = Finite False 0"
  by (auto simp: getDouble_def double_of_int_def)

lemma readDataType_ReadValue_float:
  assumes "state_m r = kReadValue" "majorType_m r = kSimpleOrFloat" "addlInfo_m r \<in> {25, 26, 27}"
  shows "fst (readDataType r) \<in> {DataType_kFloat, DataType_kDouble}"
  using assms(3)
  by (elim insertE emptyE;
      simp add: assms(1,2) rd_defs Let_def majorType_defs split: prod.splits)

lemma readDataType_float_type:
  assumes "state_m r = kStart" "majorType_m (snd (readDataType r)) = kSimpleOrFloat"
    "addlInfo_m (snd (readDataType r)) \<in> {25, 26, 27}"
  shows "fst (readDataType r) \<in> {DataType_kFloat, DataType_kDouble, DataType_kEOS}"
proof (cases "in_m r")
  case Nil
  with assms(1) show ?thesis by (simp add: readDataType_Start_empty)
next
  case (Cons h s)
  let ?r1 = "afterInitialByte h s r"
  have e: "readDataType r = readDataType ?r1"
    using assms(1) Cons by (rule readDataType_Start_byte)
  have s1: "state_m ?r1 = kAdditionalInfo" by (simp add: afterInitialByte_def)
  have k: "majorType_m ?r1 = kSimpleOrFloat" "addlInfo_m ?r1 \<in> {25, 26, 27}"
    using assms(2,3) readDataType_keeps [of ?r1] s1 by (simp_all add: e)
  let ?r2 = "?r1\<lparr>waitAvailable_m := argWait (addlInfo_m ?r1), state_m := kWaitAvailable\<rparr>"
  have e2: "readDataType ?r1 = readDataType ?r2"
    using s1 k(2) by (intro readDataType_AdditionalInfo_wait) auto
  show ?thesis
  proof (cases "int (length (in_m ?r2)) < waitAvailable_m ?r2")
    case True
    then have "readDataType ?r2 = (DataType_kEOS, ?r2)"
      by (intro readDataType_WaitAvailable_short) simp_all
    then show ?thesis by (simp add: e e2)
  next
    case False
    then have "readDataType ?r2 = readDataType (?r2\<lparr>state_m := kReadValue\<rparr>)"
      by (intro readDataType_WaitAvailable_enough) simp_all
    moreover have "fst (readDataType (?r2\<lparr>state_m := kReadValue\<rparr>)) \<in> {DataType_kFloat, DataType_kDouble}"
      using k by (intro readDataType_ReadValue_float) simp_all
    ultimately show ?thesis by (auto simp add: e e2)
  qed
qed

text \<open>
  C10. \<^verbatim>\<open>getDouble\<close> returns \<open>0.0\<close> when the major type is not 7 and when the additional
  information is none of 25, 26 and 27; that is so after every Boolean, Null, Undefined,
  SimpleValue and Break item that \<^verbatim>\<open>readDataType\<close> returns. \<^verbatim>\<open>getFloat\<close> is \<^verbatim>\<open>getDouble\<close>
  narrowed.
\<close>

theorem getDouble_not_float:
  "(majorType_m r \<noteq> kSimpleOrFloat \<or> addlInfo_m r \<notin> {25, 26, 27} \<longrightarrow>
      getDouble r = Finite False 0) \<and>
   (state_m r0 = kStart \<and>
    fst (readDataType r0) \<in> {DataType_kBoolean, DataType_kNull, DataType_kUndefined,
      DataType_kSimpleValue, DataType_kBreak} \<longrightarrow>
      getDouble (snd (readDataType r0)) = Finite False 0) \<and>
   getFloat to_float r = to_float (getDouble r)"
proof (intro conjI impI)
  assume "majorType_m r \<noteq> kSimpleOrFloat \<or> addlInfo_m r \<notin> {25, 26, 27}"
  then show "getDouble r = Finite False 0" by (rule getDouble_zero)
next
  assume a: "state_m r0 = kStart \<and>
    fst (readDataType r0) \<in> {DataType_kBoolean, DataType_kNull, DataType_kUndefined,
      DataType_kSimpleValue, DataType_kBreak}"
  have "majorType_m (snd (readDataType r0)) \<noteq> kSimpleOrFloat \<or>
      addlInfo_m (snd (readDataType r0)) \<notin> {25, 26, 27}"
  proof (rule ccontr)
    assume "\<not> ?thesis"
    then have "fst (readDataType r0) \<in> {DataType_kFloat, DataType_kDouble, DataType_kEOS}"
      using a by (intro readDataType_float_type) simp_all
    with a show False by auto
  qed
  then show "getDouble (snd (readDataType r0)) = Finite False 0" by (rule getDouble_zero)
next
  show "getFloat to_float r = to_float (getDouble r)" by (simp add: getFloat_def)
qed

theorem getDouble_not_float_witness:
  "readDataType (newReader [0xF5]) =
     (DataType_kBoolean,
      \<lparr>in_m = [], state_m = kStart, initialByte_m = 0xF5, majorType_m = 7, addlInfo_m = 21,
       waitAvailable_m = 0, value_m = 0, syntaxError_m = kNoError\<rparr>) \<and>
   getDouble (snd (readDataType (newReader [0xF5]))) = Finite False 0 \<and>
   fst (readDataType (newReader [0xFF])) = DataType_kBreak \<and>
   getDouble (snd (readDataType (newReader [0xFF]))) = Finite False 0 \<and>
   fst (readDataType (newReader [0x18, 0x2A])) = DataType_kUnsignedInt \<and>
   getDouble (snd (readDataType (newReader [0x18, 0x2A]))) = Finite False 0"
  using getDouble_not_float [of "snd (readDataType (newReader [0x18, 0x2A]))" "newReader [0xF5]" id]
    getDouble_not_float [of "snd (readDataType (newReader [0x18, 0x2A]))" "newReader [0xFF]" id]
  by (simp add: newReader_def rd_defs Let_def majorType_defs)

end
